theory Spec2Isabelle
  imports Main "HOL-Library.Sublist" "HOL-Library.Multiset"
begin

section \<open>Text primitives of the Python runtime used by \<open>webapp/app.py\<close>\<close>

text \<open>
  Python strings are sequences of code points. The model uses \<^typ>\<open>string\<close>, so it covers
  the code points 0 to 255; in that range \<open>str.isspace\<close> (also the class \<open>\s\<close> of \<open>re\<close> on
  \<open>str\<close> patterns) holds for the code points listed in \<open>isspace\<close>, and \<open>\d\<close> holds for the ten
  ASCII digits only.
\<close>

definition in_range :: "nat \<Rightarrow> nat \<Rightarrow> char \<Rightarrow> bool" where
  "in_range lo hi c = (lo \<le> of_char c \<and> of_char c \<le> hi)"

definition isspace :: "char \<Rightarrow> bool" where
  "isspace c = (in_range 0x09 0x0D c \<or> in_range 0x1C 0x20 c \<or> c = CHR 0x85 \<or> c = CHR 0xA0)"

definition isdigit :: "char \<Rightarrow> bool" where
  "isdigit c = in_range 0x30 0x39 c"

text \<open>\<open>s.rstrip(chars)\<close> and \<open>s.strip()\<close>.\<close>

definition rstrip :: "string \<Rightarrow> string \<Rightarrow> string" where
  "rstrip chars s = rev (dropWhile (\<lambda>c. c \<in> set chars) (rev s))"

definition strip :: "string \<Rightarrow> string" where
  "strip s = rev (dropWhile isspace (rev (dropWhile isspace s)))"

text \<open>
  \<open>int(s)\<close> on a string of decimal digits. The source applies it only to the groups captured
  by \<open>\d+\<close>; strings of any other shape are reported as \<open>ValueError\<close>. CPython (3.11 and
  the security releases of 3.7 to 3.10) refuses to convert a string of more than
  \<open>sys.get_int_max_str_digits()\<close> digits, 4300 unless configured otherwise; the limit is
  the parameter \<open>lim\<close>, where 0 switches the check off, and strings of at most 640 digits
  (\<open>sys.int_info.str_digits_check_threshold\<close>) are never refused.
\<close>

datatype py_error = ValueError | OSError | AttributeError

definition str_digits_check_threshold :: nat where
  "str_digits_check_threshold = 640"

definition digit_val :: "char \<Rightarrow> int" where
  "digit_val c = int (of_char c) - 48"

definition dec_value :: "string \<Rightarrow> int" where
  "dec_value s = foldl (\<lambda>acc c. 10 * acc + digit_val c) 0 s"

definition exceeds_limit :: "nat \<Rightarrow> string \<Rightarrow> bool" where
  "exceeds_limit lim s =
     (str_digits_check_threshold < length s \<and> 0 < lim \<and> lim < length s)"

definition py_int :: "nat \<Rightarrow> string \<Rightarrow> py_error + int" where
  "py_int lim s =
     (if s = [] \<or> \<not> list_all isdigit s then Inl ValueError
      else if exceeds_limit lim s then Inl ValueError
      else Inr (dec_value s))"

section \<open>Regular expressions\<close>

text \<open>
  The three patterns of the source are sequences of character classes, each taken once,
  or under \<open>*\<close> or \<open>+\<close>. \<open>match_here\<close> is the backtracking matcher of \<open>re\<close> on that fragment:
  a quantified class first takes the longest run and gives characters back one at a time
  until the rest of the pattern matches. It returns the text matched by each atom and the
  unread rest of the subject.
\<close>

datatype quant = One | Star | Plus

type_synonym atom = "(char \<Rightarrow> bool) \<times> quant"

fun first_some :: "(nat \<Rightarrow> 'a option) \<Rightarrow> nat list \<Rightarrow> 'a option" where
  "first_some f [] = None"
| "first_some f (n # ns) = (case f n of Some y \<Rightarrow> Some y | None \<Rightarrow> first_some f ns)"

fun match_here :: "atom list \<Rightarrow> string \<Rightarrow> (string list \<times> string) option" where
  "match_here [] s = Some ([], s)"
| "match_here ((c, One) # r) s =
     (case s of
        [] \<Rightarrow> None
      | x # xs \<Rightarrow>
          if c x then map_option (\<lambda>(ms, t). ([x] # ms, t)) (match_here r xs) else None)"
| "match_here ((c, Star) # r) s =
     first_some (\<lambda>n. map_option (\<lambda>(ms, t). (take n s # ms, t)) (match_here r (drop n s)))
       (rev [0 ..< Suc (length (takeWhile c s))])"
| "match_here ((c, Plus) # r) s =
     first_some (\<lambda>n. map_option (\<lambda>(ms, t). (take n s # ms, t)) (match_here r (drop n s)))
       (rev [1 ..< Suc (length (takeWhile c s))])"

text \<open>\<open>re.search\<close>: the match at the leftmost position that has one.\<close>

fun re_search :: "atom list \<Rightarrow> string \<Rightarrow> string list option" where
  "re_search r [] = map_option fst (match_here r [])"
| "re_search r (x # xs) =
     (case match_here r (x # xs) of
        Some (ms, t) \<Rightarrow> Some ms
      | None \<Rightarrow> re_search r xs)"

text \<open>
  \<open>pattern.sub(rep, s)\<close> and \<open>re.split(pattern, s)\<close>: the subject is scanned from the left,
  each match is replaced (or ends a field) and scanning resumes behind it. An empty match
  consumes nothing, so the scan then steps over one character; none of the source's
  patterns has an empty match.
\<close>

fun re_sub :: "atom list \<Rightarrow> string \<Rightarrow> string \<Rightarrow> string" where
  "re_sub r rep [] = (case match_here r [] of Some _ \<Rightarrow> rep | None \<Rightarrow> [])"
| "re_sub r rep (x # xs) =
     (case match_here r (x # xs) of
        None \<Rightarrow> x # re_sub r rep xs
      | Some (ms, t) \<Rightarrow>
          if length t < length (x # xs) then rep @ re_sub r rep t
          else rep @ x # re_sub r rep xs)"

fun split_from :: "atom list \<Rightarrow> string \<Rightarrow> string \<Rightarrow> string list" where
  "split_from r cur [] = [cur]"
| "split_from r cur (x # xs) =
     (case match_here r (x # xs) of
        None \<Rightarrow> split_from r (cur @ [x]) xs
      | Some (ms, t) \<Rightarrow>
          if length t < length (x # xs) then cur # split_from r [] t
          else split_from r (cur @ [x]) xs)"

definition re_split :: "atom list \<Rightarrow> string \<Rightarrow> string list" where
  "re_split r s = split_from r [] s"

definition lit :: "char \<Rightarrow> atom" where
  "lit a = ((\<lambda>c. c = a), One)"

text \<open>Line 20: \<^verbatim>\<open>ansi_escape = re.compile(r"\x1B\[[0-?]*[ -/]*[@-~]")\<close>.\<close>

definition ansi_escape :: "atom list" where
  "ansi_escape =
     [lit (CHR 0x1B), lit (CHR ''[''), (in_range 0x30 0x3F, Star), (in_range 0x20 0x2F, Star),
      (in_range 0x40 0x7E, One)]"

text \<open>Line 27: \<^verbatim>\<open>Deploying\s+(\d+)\/(\d+)\<close>; the groups are the atoms 10 and 12.\<close>

definition deploying :: "atom list" where
  "deploying = map lit ''Deploying'' @ [(isspace, Plus), (isdigit, Plus), lit (CHR ''/''), (isdigit, Plus)]"

definition group1 :: "string list \<Rightarrow> string" where
  "group1 ms = ms ! 10"

definition group2 :: "string list \<Rightarrow> string" where
  "group2 ms = ms ! 12"

text \<open>Line 61: \<^verbatim>\<open>[,\s]+\<close>.\<close>

definition is_sep :: "char \<Rightarrow> bool" where
  "is_sep c = (c = CHR '','' \<or> isspace c)"

definition skip_sep :: "atom list" where
  "skip_sep = [(is_sep, Plus)]"

section \<open>The line sanitizer and the progress extractor\<close>

text \<open>Lines 24 and 82: \<^verbatim>\<open>clean = ansi_escape.sub('', line.rstrip('\n'))\<close>.\<close>

definition sanitize :: "string \<Rightarrow> string" where
  "sanitize line = re_sub ansi_escape [] (rstrip [CHR 0x0A] line)"

text \<open>
  Lines 27 to 36. \<open>parse_progress\<close> is the body of the \<open>try\<close>: both conversions are done
  before anything is stored. \<open>extract_progress\<close> adds the \<open>if m\<close> around it and the handler
  \<open>except Exception: pass\<close>; \<open>None\<close> means that the progress pair is left as it is.
\<close>

definition parse_progress :: "nat \<Rightarrow> string list \<Rightarrow> py_error + (int \<times> int)" where
  "parse_progress lim ms =
     (case py_int lim (group1 ms) of
        Inl e \<Rightarrow> Inl e
      | Inr cur \<Rightarrow>
          (case py_int lim (group2 ms) of
             Inl e \<Rightarrow> Inl e
           | Inr tot \<Rightarrow> Inr (cur, tot)))"

definition extract_progress :: "nat \<Rightarrow> string \<Rightarrow> (int \<times> int) option" where
  "extract_progress lim clean =
     (case re_search deploying clean of
        None \<Rightarrow> None
      | Some ms \<Rightarrow>
          (case parse_progress lim ms of
             Inl e \<Rightarrow> None
           | Inr p \<Rightarrow> Some p))"

section \<open>Processes, sessions and the registry\<close>

text \<open>
  The child process is the environment of the program. What the program can see of it is
  the text waiting in its two pipes, whether the write end of each pipe is still open, and
  its exit status; \<open>signals\<close> records what has been delivered to it. A pipe holds the
  decoded text that has been written and not yet read.
\<close>

datatype signal = SIGINT | SIGTERM

record process =
  argv :: "string list"
  out_pipe :: string
  out_open :: bool
  err_pipe :: string
  err_open :: bool
  exit_status :: "int option"
  signals :: "signal list"

text \<open>
  \<open>Popen(cmd, ...)\<close> raises \<open>ValueError\<close> for an argument with an embedded null character and
  \<open>OSError\<close> when the operating system cannot start the program; \<open>can_exec\<close> stands for the
  operating system's answer.
\<close>

definition Popen :: "(string list \<Rightarrow> bool) \<Rightarrow> string list \<Rightarrow> py_error + process" where
  "Popen can_exec cmd =
     (if list_ex (\<lambda>a. CHR 0x00 \<in> set a) cmd then Inl ValueError
      else if \<not> can_exec cmd then Inl OSError
      else Inr \<lparr>argv = cmd, out_pipe = [], out_open = True, err_pipe = [], err_open = True,
                exit_status = None, signals = []\<rparr>)"

text \<open>
  \<open>Popen.send_signal\<close> polls first and returns at once for a process that has exited;
  otherwise it delivers the signal, and \<open>fails\<close> says whether the delivery raises.
  \<open>terminate\<close> sends \<open>SIGTERM\<close>.
\<close>

definition send_signal :: "bool \<Rightarrow> signal \<Rightarrow> process \<Rightarrow> py_error + process" where
  "send_signal fails sig p =
     (if exit_status p \<noteq> None then Inr p
      else if fails then Inl OSError
      else Inr (p\<lparr>signals := signals p @ [sig]\<rparr>))"

definition terminate :: "bool \<Rightarrow> process \<Rightarrow> py_error + process" where
  "terminate fails p = send_signal fails SIGTERM p"

text \<open>
  \<open>readline\<close> on the read end of a pipe that holds \<open>buf\<close>: the text up to the first newline,
  with it; without a newline, all that is left once the write end is closed, which is the
  empty string at the end of the stream; otherwise the call waits, which is \<open>None\<close>. The
  result is the line and what stays in the pipe.
\<close>

definition readline :: "string \<Rightarrow> bool \<Rightarrow> (string \<times> string) option" where
  "readline buf is_open =
     (if CHR 0x0A \<in> set buf
      then Some (takeWhile (\<lambda>c. c \<noteq> CHR 0x0A) buf @ [CHR 0x0A],
                 tl (dropWhile (\<lambda>c. c \<noteq> CHR 0x0A) buf))
      else if is_open then None
      else Some (buf, []))"

text \<open>
  Line 72: the dictionary \<open>meta\<close> with the keys \<open>proc\<close>, \<open>queue\<close>, \<open>progress\<close>, \<open>total\<close> and
  \<open>done\<close>. Two threads are started for each of them (lines 76 and 85); \<open>out_thread\<close> and
  \<open>err_thread\<close> say where each of them stands, with the values of its local variables:
  \<open>Handling line\<close> is line 24 with \<open>line\<close> read, \<open>Putting clean\<close> is line 37, \<open>Waiting\<close> is
  line 39, \<open>Marking\<close> is line 40, and \<open>Crashed\<close> is a thread ended by an exception.
  \<open>history\<close> is a history variable: every line ever put into \<open>queue\<close>, in order. No step
  reads it.
\<close>

datatype out_pc = Reading | Handling string | Putting string | Waiting | Marking | Finished | Crashed

datatype err_pc = EReading | EPutting string | EFinished | ECrashed

record meta =
  proc :: process
  queue :: "string list"
  progress :: int
  total :: int
  "done" :: bool
  out_thread :: out_pc
  err_thread :: err_pc
  history :: "string list"

text \<open>
  The events a generator yields (lines 104, 110 and 112), and a generator: the \<open>meta\<close> it
  holds, where it stands in its loop with the values of its local variables, and what it
  has yielded so far. \<open>AtGet\<close> is line 99; \<open>AtData line\<close> is the \<open>yield\<close> of line 104;
  \<open>AtSnapshot\<close> is line 105; \<open>AtProgress done prog total\<close> is the \<open>yield\<close> of line 110;
  \<open>AtCheck done\<close> is line 111; \<open>AtComplete\<close> is the \<open>yield\<close> of line 112; \<open>Closed\<close> is the
  generator after the \<open>break\<close>.
\<close>

datatype event = Data string | Progress int int | Complete

datatype gen_pc =
    AtGet
  | AtData string
  | AtSnapshot
  | AtProgress bool int int
  | AtCheck bool
  | AtComplete
  | Closed

record generator =
  gref :: nat
  gpc :: gen_pc
  emitted :: "event list"

text \<open>
  The dictionaries \<open>meta\<close> are shared between the registry, the threads and the generators,
  so they live in a store, \<open>metas\<close>, and are referred to by their index in it. \<open>scans\<close> is
  the registry of line 17.
\<close>

record state =
  scans :: "string \<rightharpoonup> nat"
  metas :: "meta list"
  generators :: "generator list"

definition init_state :: state where
  "init_state = \<lparr>scans = Map.empty, metas = [], generators = []\<rparr>"

definition meta_at :: "state \<Rightarrow> nat \<Rightarrow> meta option" where
  "meta_at s a = (if a < length (metas s) then Some (metas s ! a) else None)"

definition set_meta :: "nat \<Rightarrow> meta \<Rightarrow> state \<Rightarrow> state" where
  "set_meta a m s = s\<lparr>metas := (metas s)[a := m]\<rparr>"

definition gen_at :: "state \<Rightarrow> nat \<Rightarrow> generator option" where
  "gen_at s i = (if i < length (generators s) then Some (generators s ! i) else None)"

definition set_gen :: "nat \<Rightarrow> generator \<Rightarrow> state \<Rightarrow> state" where
  "set_gen i g s = s\<lparr>generators := (generators s)[i := g]\<rparr>"

section \<open>The output pumps\<close>

text \<open>
  Lines 27 to 36 on one sanitized line: the progress pair is stored when the pattern
  matches and both numbers convert; the handler of line 35 turns a failed conversion into
  no update.
\<close>

definition update_progress :: "nat \<Rightarrow> string \<Rightarrow> meta \<Rightarrow> py_error + meta" where
  "update_progress lim clean m =
     (case re_search deploying clean of
        None \<Rightarrow> Inr m
      | Some ms \<Rightarrow>
          (case parse_progress lim ms of
             Inl e \<Rightarrow> Inr m
           | Inr (cur, tot) \<Rightarrow> Inr (m\<lparr>progress := cur, total := tot\<rparr>)))"

definition q_put :: "string \<Rightarrow> meta \<Rightarrow> meta" where
  "q_put x m = m\<lparr>queue := queue m @ [x], history := history m @ [x]\<rparr>"

text \<open>The body of the loop of \<open>_enqueue_output\<close> (lines 24 to 37) and of \<open>_enqueue_err\<close> (82, 83).\<close>

definition enqueue_output_line :: "nat \<Rightarrow> string \<Rightarrow> meta \<Rightarrow> py_error + meta" where
  "enqueue_output_line lim line m =
     (let clean = sanitize line in
      case update_progress lim clean m of
        Inl e \<Rightarrow> Inl e
      | Inr m' \<Rightarrow> Inr (q_put clean m'))"

definition enqueue_err_line :: "string \<Rightarrow> meta \<Rightarrow> meta" where
  "enqueue_err_line line m = q_put (sanitize line) m"

text \<open>
  The threads run interleaved, so each of them is cut into steps, one for every access to
  what another thread or the process can see or change; a step that cannot be taken is
  \<open>None\<close>. The steps of the thread of \<open>_enqueue_output\<close>: \<open>readline\<close> returns a line, or the
  empty string, on which the loop ends and the stream is closed (line 38); the line is
  sanitized and the progress pair stored under the lock (lines 25 to 34); the line is put
  into the queue (line 37); \<open>proc.wait()\<close> returns (line 39), which it does once the process
  has exited; \<open>done\<close> is set under the lock (line 41). \<open>readline\<close> raises on bytes that are
  not text, which ends the thread: \<open>out_crash\<close>.
\<close>

definition out_read :: "meta \<Rightarrow> meta option" where
  "out_read m =
     (if out_thread m \<noteq> Reading then None
      else case readline (out_pipe (proc m)) (out_open (proc m)) of
        None \<Rightarrow> None
      | Some (line, rest) \<Rightarrow>
          Some (m\<lparr>proc := (proc m)\<lparr>out_pipe := rest\<rparr>,
                  out_thread := (if line = [] then Waiting else Handling line)\<rparr>))"

definition out_crash :: "meta \<Rightarrow> meta option" where
  "out_crash m = (if out_thread m = Reading then Some (m\<lparr>out_thread := Crashed\<rparr>) else None)"

definition out_update :: "nat \<Rightarrow> meta \<Rightarrow> meta option" where
  "out_update lim m =
     (case out_thread m of
        Handling line \<Rightarrow>
          (case update_progress lim (sanitize line) m of
             Inl e \<Rightarrow> Some (m\<lparr>out_thread := Crashed\<rparr>)
           | Inr m' \<Rightarrow> Some (m'\<lparr>out_thread := Putting (sanitize line)\<rparr>))
      | _ \<Rightarrow> None)"

definition out_put :: "meta \<Rightarrow> meta option" where
  "out_put m =
     (case out_thread m of
        Putting clean \<Rightarrow> Some ((q_put clean m)\<lparr>out_thread := Reading\<rparr>)
      | _ \<Rightarrow> None)"

definition out_wait :: "meta \<Rightarrow> meta option" where
  "out_wait m =
     (if out_thread m = Waiting \<and> exit_status (proc m) \<noteq> None
      then Some (m\<lparr>out_thread := Marking\<rparr>) else None)"

definition out_done :: "meta \<Rightarrow> meta option" where
  "out_done m =
     (if out_thread m = Marking then Some (m\<lparr>done := True, out_thread := Finished\<rparr>) else None)"

text \<open>
  The steps of the thread of \<open>_enqueue_err\<close> (lines 80 to 84): \<open>readline\<close> returns a line,
  which is sanitized, or the empty string, on which the thread ends; the line is put into
  the queue.
\<close>

definition err_read :: "meta \<Rightarrow> meta option" where
  "err_read m =
     (if err_thread m \<noteq> EReading then None
      else case readline (err_pipe (proc m)) (err_open (proc m)) of
        None \<Rightarrow> None
      | Some (line, rest) \<Rightarrow>
          Some (m\<lparr>proc := (proc m)\<lparr>err_pipe := rest\<rparr>,
                  err_thread := (if line = [] then EFinished else EPutting (sanitize line))\<rparr>))"

definition err_crash :: "meta \<Rightarrow> meta option" where
  "err_crash m = (if err_thread m = EReading then Some (m\<lparr>err_thread := ECrashed\<rparr>) else None)"

definition err_put :: "meta \<Rightarrow> meta option" where
  "err_put m =
     (case err_thread m of
        EPutting clean \<Rightarrow> Some ((q_put clean m)\<lparr>err_thread := EReading\<rparr>)
      | _ \<Rightarrow> None)"

text \<open>
  What the process itself does: it writes text to one of its streams, closes a stream, or
  exits, which closes both.
\<close>

definition proc_write_out :: "string \<Rightarrow> process \<Rightarrow> process option" where
  "proc_write_out txt p =
     (if exit_status p = None \<and> out_open p
      then Some (p\<lparr>out_pipe := out_pipe p @ txt\<rparr>) else None)"

definition proc_write_err :: "string \<Rightarrow> process \<Rightarrow> process option" where
  "proc_write_err txt p =
     (if exit_status p = None \<and> err_open p
      then Some (p\<lparr>err_pipe := err_pipe p @ txt\<rparr>) else None)"

definition proc_close_out :: "process \<Rightarrow> process option" where
  "proc_close_out p =
     (if exit_status p = None \<and> out_open p then Some (p\<lparr>out_open := False\<rparr>) else None)"

definition proc_close_err :: "process \<Rightarrow> process option" where
  "proc_close_err p =
     (if exit_status p = None \<and> err_open p then Some (p\<lparr>err_open := False\<rparr>) else None)"

definition proc_exit :: "int \<Rightarrow> process \<Rightarrow> process option" where
  "proc_exit code p =
     (if exit_status p = None
      then Some (p\<lparr>exit_status := Some code, out_open := False, err_open := False\<rparr>)
      else None)"

section \<open>The request handlers\<close>

text \<open>
  What the handlers need from their surroundings: the path of line 12, the operating
  system's answer to a spawn, and the interpreter's limit on integer strings.
\<close>

record env =
  RAPIDSCAN_PATH :: string
  can_exec :: "string list \<Rightarrow> bool"
  int_max_str_digits :: nat

text \<open>
  A request body is any JSON value, or nothing when it does not parse (\<open>silent=True\<close>). A
  number is represented by an integer: all that is looked at is whether it is zero.
  \<open>truthy\<close> is Python's truth value; \<open>body_data\<close> is line 49,
  \<^verbatim>\<open>request.get_json(force=True, silent=True) or {}\<close>; \<open>dict_get\<close> is \<open>data.get(k)\<close>, which exists
  for a dictionary only, the last of several equal keys counting; \<open>or_empty_strip\<close> is
  \<^verbatim>\<open>(v or '').strip()\<close>, which exists for a string only. \<open>get_stripped\<close> puts the two
  together, as lines 50 and 51 do.
\<close>

datatype json =
    JNull
  | JBool bool
  | JNum int
  | JStr string
  | JArr "json list"
  | JObj "(string \<times> json) list"

definition truthy :: "json \<Rightarrow> bool" where
  "truthy v =
     (case v of
        JNull \<Rightarrow> False
      | JBool b \<Rightarrow> b
      | JNum n \<Rightarrow> n \<noteq> 0
      | JStr x \<Rightarrow> x \<noteq> []
      | JArr xs \<Rightarrow> xs \<noteq> []
      | JObj kvs \<Rightarrow> kvs \<noteq> [])"

definition body_data :: "json option \<Rightarrow> json" where
  "body_data body = (case body of None \<Rightarrow> JObj [] | Some v \<Rightarrow> if truthy v then v else JObj [])"

definition dict_get :: "json \<Rightarrow> string \<Rightarrow> py_error + json" where
  "dict_get data k =
     (case data of
        JObj kvs \<Rightarrow> Inr (case map_of (rev kvs) k of None \<Rightarrow> JNull | Some v \<Rightarrow> v)
      | _ \<Rightarrow> Inl AttributeError)"

definition or_empty_strip :: "json \<Rightarrow> py_error + string" where
  "or_empty_strip v =
     (if \<not> truthy v then Inr (strip [])
      else case v of JStr x \<Rightarrow> Inr (strip x) | _ \<Rightarrow> Inl AttributeError)"

definition get_stripped :: "json \<Rightarrow> string \<Rightarrow> py_error + string" where
  "get_stripped data k =
     (case dict_get data k of Inl err \<Rightarrow> Inl err | Inr v \<Rightarrow> or_empty_strip v)"

datatype response =
    ScanId string
  | Error string nat
  | Stopping
  | StatusOf int int bool
  | EventStream nat

text \<open>Lines 58 to 65.\<close>

definition add_skip :: "string list \<Rightarrow> string \<Rightarrow> string list" where
  "add_skip cmd tok = (let tok = strip tok in if tok \<noteq> [] then cmd @ [''--skip'', tok] else cmd)"

definition build_cmd :: "string \<Rightarrow> string \<Rightarrow> string \<Rightarrow> string list" where
  "build_cmd path tgt skip_raw =
     (let cmd = [''python3'', ''-u'', path, ''-n''];
          cmd = (if skip_raw \<noteq> [] then foldl add_skip cmd (re_split skip_sep skip_raw) else cmd)
      in cmd @ [tgt])"

text \<open>
  Lines 47 to 87. \<open>uid\<close> is the value of \<open>uuid.uuid4().hex\<close>; the handler stores the new
  session under it without looking whether the registry has that key. Both fields are
  read and stripped before the target is tested, and an exception of that, or of \<open>Popen\<close>,
  leaves the handler before anything is stored.
\<close>

definition new_meta :: "process \<Rightarrow> meta" where
  "new_meta p =
     \<lparr>proc = p, queue = [], progress = 0, total = 0, done = False,
      out_thread = Reading, err_thread = EReading, history = []\<rparr>"

definition start_scan :: "env \<Rightarrow> string \<Rightarrow> json option \<Rightarrow> state \<Rightarrow> (py_error + response) \<times> state" where
  "start_scan e uid body s =
     (let data = body_data body in
      case get_stripped data ''target'' of
        Inl err \<Rightarrow> (Inl err, s)
      | Inr tgt \<Rightarrow>
          (case get_stripped data ''skip'' of
             Inl err \<Rightarrow> (Inl err, s)
           | Inr skip_raw \<Rightarrow>
               if tgt = [] then (Inr (Error ''target is required'' 400), s)
               else
                 (case Popen (can_exec e) (build_cmd (RAPIDSCAN_PATH e) tgt skip_raw) of
                    Inl err \<Rightarrow> (Inl err, s)
                  | Inr p \<Rightarrow>
                      (Inr (ScanId uid),
                       s\<lparr>scans := (scans s)(uid \<mapsto> length (metas s)),
                         metas := metas s @ [new_meta p]\<rparr>))))"

text \<open>Lines 89 to 114: the handler, which hands a new generator to the server.\<close>

definition stream :: "string \<Rightarrow> state \<Rightarrow> response \<times> state" where
  "stream scan_id s =
     (case scans s scan_id of
        None \<Rightarrow> (Error ''Invalid scan id'' 404, s)
      | Some a \<Rightarrow>
          (EventStream (length (generators s)),
           s\<lparr>generators := generators s @ [\<lparr>gref = a, gpc = AtGet, emitted = []\<rparr>]\<rparr>))"

text \<open>
  The loop of \<open>event_stream\<close>, cut at every access to the session and at every \<open>yield\<close>,
  where the generator is suspended and the other threads go on. Each step is given the
  \<open>meta\<close> the generator holds and returns the generator and that \<open>meta\<close> after the step:
  \<open>q.get(timeout=0.5)\<close>, which takes the first line of the queue or finds it empty (lines 99
  to 102); the \<open>yield\<close> of that line (104); the reads under the lock (105 to 108); the
  \<open>yield\<close> of what has been read (110); the test of line 111 with the call of \<open>q.empty()\<close>;
  the last \<open>yield\<close> and the \<open>break\<close> (112 and 113).
\<close>

definition gen_get :: "meta \<Rightarrow> generator \<Rightarrow> (generator \<times> meta) option" where
  "gen_get m g =
     (if gpc g = AtGet
      then (case queue m of
              [] \<Rightarrow> Some (g\<lparr>gpc := AtSnapshot\<rparr>, m)
            | l # q \<Rightarrow> Some (g\<lparr>gpc := AtData l\<rparr>, m\<lparr>queue := q\<rparr>))
      else None)"

definition gen_data :: "meta \<Rightarrow> generator \<Rightarrow> (generator \<times> meta) option" where
  "gen_data m g =
     (case gpc g of
        AtData l \<Rightarrow> Some (g\<lparr>gpc := AtSnapshot, emitted := emitted g @ [Data l]\<rparr>, m)
      | _ \<Rightarrow> None)"

definition gen_snapshot :: "meta \<Rightarrow> generator \<Rightarrow> (generator \<times> meta) option" where
  "gen_snapshot m g =
     (if gpc g = AtSnapshot
      then Some (g\<lparr>gpc := AtProgress (done m) (progress m) (total m)\<rparr>, m)
      else None)"

definition gen_progress :: "meta \<Rightarrow> generator \<Rightarrow> (generator \<times> meta) option" where
  "gen_progress m g =
     (case gpc g of
        AtProgress d prog tot \<Rightarrow>
          Some (g\<lparr>gpc := AtCheck d, emitted := emitted g @ [Progress prog tot]\<rparr>, m)
      | _ \<Rightarrow> None)"

definition gen_check :: "meta \<Rightarrow> generator \<Rightarrow> (generator \<times> meta) option" where
  "gen_check m g =
     (case gpc g of
        AtCheck d \<Rightarrow> Some (g\<lparr>gpc := (if d \<and> queue m = [] then AtComplete else AtGet)\<rparr>, m)
      | _ \<Rightarrow> None)"

definition gen_complete :: "meta \<Rightarrow> generator \<Rightarrow> (generator \<times> meta) option" where
  "gen_complete m g =
     (if gpc g = AtComplete
      then Some (g\<lparr>gpc := Closed, emitted := emitted g @ [Complete]\<rparr>, m)
      else None)"

text \<open>
  Lines 116 to 130. \<open>sig_fails\<close> and \<open>term_fails\<close> say whether the delivery of the signal
  raises in \<open>send_signal\<close> and in \<open>terminate\<close>.
\<close>

definition stop :: "bool \<Rightarrow> bool \<Rightarrow> string \<Rightarrow> state \<Rightarrow> (py_error + response) \<times> state" where
  "stop sig_fails term_fails scan_id s =
     (case scans s scan_id of
        None \<Rightarrow> (Inr (Error ''Invalid scan id'' 404), s)
      | Some a \<Rightarrow>
          (case meta_at s a of
             None \<Rightarrow> (Inr (Error ''Invalid scan id'' 404), s)
           | Some m \<Rightarrow>
               (case send_signal sig_fails SIGINT (proc m) of
                  Inr p \<Rightarrow> (Inr Stopping, set_meta a (m\<lparr>proc := p\<rparr>) s)
                | Inl e \<Rightarrow>
                    (case terminate term_fails (proc m) of
                       Inr p \<Rightarrow> (Inr Stopping, set_meta a (m\<lparr>proc := p\<rparr>) s)
                     | Inl e' \<Rightarrow> (Inr Stopping, s)))))"

text \<open>
  Lines 132 to 138. The handler reads the three fields one after the other without the
  lock; \<open>status\<close> is its response when no other thread runs between these reads.
\<close>

definition status :: "string \<Rightarrow> state \<Rightarrow> response" where
  "status scan_id s =
     (case scans s scan_id of
        None \<Rightarrow> Error ''Invalid scan id'' 404
      | Some a \<Rightarrow>
          (case meta_at s a of
             None \<Rightarrow> Error ''Invalid scan id'' 404
           | Some m \<Rightarrow> StatusOf (progress m) (total m) (done m)))"

section \<open>The whole system as a transition system\<close>

text \<open>
  One action is one step of a handler, of a thread, of a generator or of a child process; a
  run is any sequence of them, so that the runs are the interleavings of all threads. A
  step that is not enabled is \<open>None\<close>. The handlers \<open>start_scan\<close>, \<open>stream\<close> and \<open>stop\<close> touch
  the registry or the process once and are one step each.
\<close>

datatype action =
    StartScan string "json option"
  | Stream string
  | Stop string bool bool
  | Status string
  | GenGet nat
  | GenData nat
  | GenSnapshot nat
  | GenProgress nat
  | GenCheck nat
  | GenComplete nat
  | OutRead nat
  | OutCrash nat
  | OutUpdate nat
  | OutPut nat
  | OutWait nat
  | OutDone nat
  | ErrRead nat
  | ErrCrash nat
  | ErrPut nat
  | ProcWriteOut nat string
  | ProcWriteErr nat string
  | ProcCloseOut nat
  | ProcCloseErr nat
  | ProcExit nat int

definition on_meta :: "nat \<Rightarrow> (meta \<Rightarrow> meta option) \<Rightarrow> state \<Rightarrow> state option" where
  "on_meta a f s =
     (case meta_at s a of
        None \<Rightarrow> None
      | Some m \<Rightarrow> (case f m of None \<Rightarrow> None | Some m' \<Rightarrow> Some (set_meta a m' s)))"

definition on_proc :: "(process \<Rightarrow> process option) \<Rightarrow> meta \<Rightarrow> meta option" where
  "on_proc f m = (case f (proc m) of None \<Rightarrow> None | Some p \<Rightarrow> Some (m\<lparr>proc := p\<rparr>))"

definition on_gen :: "nat \<Rightarrow> (meta \<Rightarrow> generator \<Rightarrow> (generator \<times> meta) option) \<Rightarrow> state \<Rightarrow> state option" where
  "on_gen i f s =
     (case gen_at s i of
        None \<Rightarrow> None
      | Some g \<Rightarrow>
          (case meta_at s (gref g) of
             None \<Rightarrow> None
           | Some m \<Rightarrow>
               (case f m g of
                  None \<Rightarrow> None
                | Some (g', m') \<Rightarrow> Some (set_gen i g' (set_meta (gref g) m' s)))))"

fun step :: "env \<Rightarrow> action \<Rightarrow> state \<Rightarrow> state option" where
  "step e (StartScan uid body) s = Some (snd (start_scan e uid body s))"
| "step e (Stream scan_id) s = Some (snd (stream scan_id s))"
| "step e (Stop scan_id sig_fails term_fails) s = Some (snd (stop sig_fails term_fails scan_id s))"
| "step e (Status scan_id) s = Some s"
| "step e (GenGet i) s = on_gen i gen_get s"
| "step e (GenData i) s = on_gen i gen_data s"
| "step e (GenSnapshot i) s = on_gen i gen_snapshot s"
| "step e (GenProgress i) s = on_gen i gen_progress s"
| "step e (GenCheck i) s = on_gen i gen_check s"
| "step e (GenComplete i) s = on_gen i gen_complete s"
| "step e (OutRead a) s = on_meta a out_read s"
| "step e (OutCrash a) s = on_meta a out_crash s"
| "step e (OutUpdate a) s = on_meta a (out_update (int_max_str_digits e)) s"
| "step e (OutPut a) s = on_meta a out_put s"
| "step e (OutWait a) s = on_meta a out_wait s"
| "step e (OutDone a) s = on_meta a out_done s"
| "step e (ErrRead a) s = on_meta a err_read s"
| "step e (ErrCrash a) s = on_meta a err_crash s"
| "step e (ErrPut a) s = on_meta a err_put s"
| "step e (ProcWriteOut a txt) s = on_meta a (on_proc (proc_write_out txt)) s"
| "step e (ProcWriteErr a txt) s = on_meta a (on_proc (proc_write_err txt)) s"
| "step e (ProcCloseOut a) s = on_meta a (on_proc proc_close_out) s"
| "step e (ProcCloseErr a) s = on_meta a (on_proc proc_close_err) s"
| "step e (ProcExit a code) s = on_meta a (on_proc (proc_exit code)) s"

fun run :: "env \<Rightarrow> action list \<Rightarrow> state \<Rightarrow> state option" where
  "run e [] s = Some s"
| "run e (a # as) s = (case step e a s of None \<Rightarrow> None | Some s' \<Rightarrow> run e as s')"

section \<open>The specification's reading of the three patterns\<close>

text \<open>
  The definitions of this section do not come from the source. They say directly, without
  a matcher, what the specification describes: a control sequence at the head of a text,
  the text with such sequences dropped, a progress report at the head of a text and the
  first one in a line, and the tokens of a skip list. The theorems below compare them with
  what the source computes.

  \<open>csi_rest s\<close> is what follows a control sequence that \<open>s\<close> begins with: the introducer
  \<open>ESC [\<close>, parameter bytes \<open>0x30\<close> to \<open>0x3F\<close>, intermediate bytes \<open>0x20\<close> to \<open>0x2F\<close>, and one
  final byte \<open>0x40\<close> to \<open>0x7E\<close>.
\<close>

definition csi_rest :: "string \<Rightarrow> string option" where
  "csi_rest s =
     (case s of
        e # b # u \<Rightarrow>
          if e = CHR 0x1B \<and> b = CHR ''[''
          then (case dropWhile (in_range 0x20 0x2F) (dropWhile (in_range 0x30 0x3F) u) of
                  [] \<Rightarrow> None
                | f # t \<Rightarrow> if in_range 0x40 0x7E f then Some t else None)
          else None
      | _ \<Rightarrow> None)"

function strip_csi :: "string \<Rightarrow> string" where
  "strip_csi [] = []"
| "strip_csi (x # xs) =
     (case csi_rest (x # xs) of
        Some t \<Rightarrow> strip_csi t
      | None \<Rightarrow> x # strip_csi xs)"
  by pat_completeness auto
termination
proof (relation "measure length")
  fix x xs t
  assume "csi_rest (x # xs) = Some t"
  then obtain u f where "dropWhile (in_range 0x20 0x2F) (dropWhile (in_range 0x30 0x3F) u) = f # t"
    and "xs = CHR ''['' # u"
    by (auto simp: csi_rest_def split: list.splits if_splits)
  moreover have "length (dropWhile (in_range 0x20 0x2F) (dropWhile (in_range 0x30 0x3F) u)) \<le> length u"
    by (meson length_dropWhile_le order_trans)
  ultimately show "(t, x # xs) \<in> measure length" by simp
qed simp_all

text \<open>
  An escape sequence of ECMA-48, the standard behind ANSI X3.64 and the VT100: \<open>ESC\<close>, any
  number of intermediate bytes, and a final byte \<open>0x30\<close> to \<open>0x7E\<close>. \<open>ESC c\<close> (reset),
  \<open>ESC 7\<close> and \<open>ESC 8\<close> (save and restore the cursor) are of this kind.
\<close>

definition is_escape_sequence :: "string \<Rightarrow> bool" where
  "is_escape_sequence q =
     (case q of
        [] \<Rightarrow> False
      | e # u \<Rightarrow>
          e = CHR 0x1B \<and> u \<noteq> [] \<and> list_all (in_range 0x20 0x2F) (butlast u) \<and>
          in_range 0x30 0x7E (last u))"

text \<open>
  \<open>deploying_at s\<close> is the pair of digit strings of a report \<open>Deploying <current>/<total>\<close>
  that \<open>s\<close> begins with; \<open>find_deploying\<close> is the first report of a line; \<open>has_deploying\<close>
  says that a line contains one.
\<close>

definition deploying_at :: "string \<Rightarrow> (string \<times> string) option" where
  "deploying_at s =
     (if take 9 s = ''Deploying''
      then
        (let u = drop 9 s;
             v = dropWhile isspace u;
             d1 = takeWhile isdigit v
         in case dropWhile isdigit v of
              [] \<Rightarrow> None
            | c # y \<Rightarrow>
                if takeWhile isspace u \<noteq> [] \<and> d1 \<noteq> [] \<and> c = CHR ''/'' \<and> takeWhile isdigit y \<noteq> []
                then Some (d1, takeWhile isdigit y)
                else None)
      else None)"

fun find_deploying :: "string \<Rightarrow> (string \<times> string) option" where
  "find_deploying [] = None"
| "find_deploying (x # xs) =
     (case deploying_at (x # xs) of
        Some p \<Rightarrow> Some p
      | None \<Rightarrow> find_deploying xs)"

definition has_deploying :: "string \<Rightarrow> bool" where
  "has_deploying s =
     (\<exists>pre ws d1 d2 post.
        s = pre @ ''Deploying'' @ ws @ d1 @ ''/'' @ d2 @ post \<and>
        ws \<noteq> [] \<and> list_all isspace ws \<and>
        d1 \<noteq> [] \<and> list_all isdigit d1 \<and>
        d2 \<noteq> [] \<and> list_all isdigit d2)"

text \<open>
  The tokens of a skip list: the maximal runs of characters that are neither commas nor
  whitespace.
\<close>

fun tokens_from :: "string \<Rightarrow> string \<Rightarrow> string list" where
  "tokens_from cur [] = (if cur = [] then [] else [cur])"
| "tokens_from cur (x # xs) =
     (if is_sep x then (if cur = [] then tokens_from [] xs else cur # tokens_from [] xs)
      else tokens_from (cur @ [x]) xs)"

definition spec_tokens :: "string \<Rightarrow> string list" where
  "spec_tokens s = tokens_from [] s"

text \<open>
  The text of a field as the handler sees it when it does not raise: the string itself, or
  the empty string put in place of a missing or false value by \<^verbatim>\<open>(v or '')\<close>.
\<close>

definition text_of :: "json \<Rightarrow> string" where
  "text_of v = (case v of JStr x \<Rightarrow> x | _ \<Rightarrow> [])"


section \<open>Sample data\<close>

definition sample_env :: env where
  "sample_env = \<lparr>RAPIDSCAN_PATH = ''/srv/rapidscan.py'', can_exec = (\<lambda>cmd. True),
                  int_max_str_digits = 4300\<rparr>"

definition sample_proc :: process where
  "sample_proc = \<lparr>argv = [''python3'', ''-u'', ''/srv/rapidscan.py'', ''-n'', ''example.com''],
                   out_pipe = [], out_open = True, err_pipe = [], err_open = True,
                   exit_status = None, signals = []\<rparr>"

definition sample_meta :: meta where
  "sample_meta = new_meta sample_proc"

definition sample_state :: state where
  "sample_state = \<lparr>scans = [''5f0c'' \<mapsto> 0], metas = [sample_meta], generators = []\<rparr>"

text \<open>
  A run in which a scan is started, the process writes one line and exits, and the thread
  of \<open>_enqueue_output\<close> handles the line, sees the end of the stream and returns from
  \<open>proc.wait()\<close>; and the state it ends in.
\<close>

definition sample_body :: "json option" where
  "sample_body = Some (JObj [(''target'', JStr ''example.com'')])"

definition sample_run :: "action list" where
  "sample_run =
     [StartScan ''5f0c'' sample_body, ProcWriteOut 0 (''hi'' @ [CHR 0x0A]), OutRead 0, OutUpdate 0,
      OutPut 0, ProcExit 0 0, OutRead 0, OutWait 0]"

definition sample_marking :: state where
  "sample_marking =
     \<lparr>scans = [''5f0c'' \<mapsto> 0],
      metas = [\<lparr>proc = \<lparr>argv = [''python3'', ''-u'', ''/srv/rapidscan.py'', ''-n'', ''example.com''],
                        out_pipe = [], out_open = False, err_pipe = [], err_open = False,
                        exit_status = Some 0, signals = []\<rparr>,
                queue = [''hi''], progress = 0, total = 0, done = False,
                out_thread = Marking, err_thread = EReading, history = [''hi'']\<rparr>],
      generators = []\<rparr>"

section \<open>Invariants of the runs\<close>

text \<open>
  What holds of a session in every state that a run reaches: once the thread of
  \<open>_enqueue_output\<close> has seen the end of the stream, the pipe is empty and closed; once
  \<open>proc.wait()\<close> has returned, the process has exited; and \<open>done\<close> is set only when that
  thread has finished.
\<close>

definition meta_ok :: "meta \<Rightarrow> bool" where
  "meta_ok m =
     ((out_thread m = Waiting \<or> out_thread m = Marking \<or> out_thread m = Finished \<longrightarrow>
         out_pipe (proc m) = [] \<and> \<not> out_open (proc m))
      \<and> (out_thread m = Marking \<or> out_thread m = Finished \<longrightarrow> exit_status (proc m) \<noteq> None)
      \<and> (done m \<longrightarrow> out_thread m = Finished))"

text \<open>
  \<open>meta_move e act s a m m'\<close>: what a step \<open>act\<close> taken in the state \<open>s\<close> can make of the
  session \<open>m\<close> stored at \<open>a\<close>.
\<close>

definition meta_move :: "env \<Rightarrow> action \<Rightarrow> state \<Rightarrow> nat \<Rightarrow> meta \<Rightarrow> meta \<Rightarrow> bool" where
  "meta_move e act s a m m' =
     (m' = m
      \<or> act = OutRead a \<and> out_read m = Some m'
      \<or> act = OutCrash a \<and> out_crash m = Some m'
      \<or> act = OutUpdate a \<and> out_update (int_max_str_digits e) m = Some m'
      \<or> act = OutPut a \<and> out_put m = Some m'
      \<or> act = OutWait a \<and> out_wait m = Some m'
      \<or> act = OutDone a \<and> out_done m = Some m'
      \<or> act = ErrRead a \<and> err_read m = Some m'
      \<or> act = ErrCrash a \<and> err_crash m = Some m'
      \<or> act = ErrPut a \<and> err_put m = Some m'
      \<or> (\<exists>txt p. act = ProcWriteOut a txt \<and> proc_write_out txt (proc m) = Some p \<and> m' = m\<lparr>proc := p\<rparr>)
      \<or> (\<exists>txt p. act = ProcWriteErr a txt \<and> proc_write_err txt (proc m) = Some p \<and> m' = m\<lparr>proc := p\<rparr>)
      \<or> (\<exists>p. act = ProcCloseOut a \<and> proc_close_out (proc m) = Some p \<and> m' = m\<lparr>proc := p\<rparr>)
      \<or> (\<exists>p. act = ProcCloseErr a \<and> proc_close_err (proc m) = Some p \<and> m' = m\<lparr>proc := p\<rparr>)
      \<or> (\<exists>code p. act = ProcExit a code \<and> proc_exit code (proc m) = Some p \<and> m' = m\<lparr>proc := p\<rparr>)
      \<or> (\<exists>i g g'. act = GenGet i \<and> gen_at s i = Some g \<and> gref g = a \<and> gen_get m g = Some (g', m'))
      \<or> (\<exists>sid sf tf sg. act = Stop sid sf tf \<and> m' = m\<lparr>proc := (proc m)\<lparr>signals := sg\<rparr>\<rparr>))"

section \<open>The matcher on the three patterns\<close>

lemma first_some_greedy:
  "lo \<le> k \<Longrightarrow> (\<And>n. n < k \<Longrightarrow> f n = None) \<Longrightarrow> first_some f (rev [lo ..< Suc k]) = f k"
proof -
  assume lo: "lo \<le> k" and none: "\<And>n. n < k \<Longrightarrow> f n = None"
  have "\<And>ns. (\<forall>n\<in>set ns. f n = None) \<Longrightarrow> first_some f ns = None"
    subgoal for ns by (induction ns) auto
    done
  then have "first_some f (rev [lo ..< k]) = None" using none by simp
  with lo show ?thesis by (simp split: option.splits)
qed

lemma run_head:
  "n < length (takeWhile c s) \<Longrightarrow> \<exists>x t. drop n s = x # t \<and> c x"
proof -
  assume n: "n < length (takeWhile c s)"
  have le: "length (takeWhile c s) \<le> length s" by (rule length_takeWhile_le)
  have "c (takeWhile c s ! n)" using n by (meson nth_mem set_takeWhileD)
  then have "c (s ! n)" using n by (simp add: takeWhile_nth)
  moreover have "drop n s = s ! n # drop (Suc n) s" using n le by (simp add: Cons_nth_drop_Suc)
  ultimately show ?thesis by blast
qed

lemma match_star_greedy:
  assumes "\<And>x t. c x \<Longrightarrow> match_here r (x # t) = None"
  shows "match_here ((c, Star) # r) s =
           map_option (\<lambda>(ms, t). (takeWhile c s # ms, t)) (match_here r (dropWhile c s))"
proof -
  have "\<And>n. n < length (takeWhile c s) \<Longrightarrow> match_here r (drop n s) = None"
    using assms run_head by metis
  then show ?thesis
    by (simp add: first_some_greedy del: upt_Suc flip: takeWhile_eq_take dropWhile_eq_drop)
qed

lemma match_plus_greedy:
  assumes "\<And>x t. c x \<Longrightarrow> match_here r (x # t) = None"
  shows "match_here ((c, Plus) # r) s =
           (if takeWhile c s = [] then None
            else map_option (\<lambda>(ms, t). (takeWhile c s # ms, t)) (match_here r (dropWhile c s)))"
proof (cases "takeWhile c s = []")
  case True
  then show ?thesis by simp
next
  case False
  then have k: "1 \<le> length (takeWhile c s)" by (simp add: Suc_leI)
  have "\<And>n. n < length (takeWhile c s) \<Longrightarrow> match_here r (drop n s) = None"
    using assms run_head by metis
  then show ?thesis using False k
    by (simp add: first_some_greedy del: upt_Suc flip: takeWhile_eq_take dropWhile_eq_drop)
qed

lemma ranges_disjoint:
  "in_range 0x30 0x3F x \<Longrightarrow> \<not> in_range 0x20 0x2F x"
  "in_range 0x30 0x3F x \<Longrightarrow> \<not> in_range 0x40 0x7E x"
  "in_range 0x20 0x2F x \<Longrightarrow> \<not> in_range 0x40 0x7E x"
  by (auto simp: in_range_def)

lemma map_match_last:
  "map_option (\<lambda>(ms, t). (p # ms, t)) (match_here [(c, One)] d) =
     (case d of [] \<Rightarrow> None | f # t \<Rightarrow> if c f then Some ([p, [f]], t) else None)"
  by (cases d) simp_all

lemma map_case_last:
  "map_option (\<lambda>(ms, t). (p # ms, t))
      (case d of [] \<Rightarrow> None | f # t \<Rightarrow> if c f then Some ([q, [f]], t) else None) =
     (case d of [] \<Rightarrow> None | f # t \<Rightarrow> if c f then Some ([p, q, [f]], t) else None)"
  by (cases d) simp_all

lemma snd_case_last:
  "map_option snd (case d of [] \<Rightarrow> None | f # t \<Rightarrow> if c f then Some (g f, t) else None) =
     (case d of [] \<Rightarrow> None | f # t \<Rightarrow> if c f then Some t else None)"
  by (cases d) simp_all

lemma match_inter_final:
  "match_here [(in_range 0x20 0x2F, Star), (in_range 0x40 0x7E, One)] s =
     (case dropWhile (in_range 0x20 0x2F) s of
        [] \<Rightarrow> None
      | f # t \<Rightarrow> if in_range 0x40 0x7E f then Some ([takeWhile (in_range 0x20 0x2F) s, [f]], t) else None)"
proof -
  have blocked: "\<And>x t. in_range 0x20 0x2F x \<Longrightarrow> match_here [(in_range 0x40 0x7E, One)] (x # t) = None"
    by (simp add: ranges_disjoint)
  have "match_here [(in_range 0x20 0x2F, Star), (in_range 0x40 0x7E, One)] s =
      map_option (\<lambda>(ms, t). (takeWhile (in_range 0x20 0x2F) s # ms, t))
        (match_here [(in_range 0x40 0x7E, One)] (dropWhile (in_range 0x20 0x2F) s))"
    by (rule match_star_greedy) (rule blocked)
  also have "\<dots> = (case dropWhile (in_range 0x20 0x2F) s of
        [] \<Rightarrow> None
      | f # t \<Rightarrow> if in_range 0x40 0x7E f then Some ([takeWhile (in_range 0x20 0x2F) s, [f]], t) else None)"
    by (rule map_match_last)
  finally show ?thesis .
qed

lemma match_param_inter_final:
  "match_here [(in_range 0x30 0x3F, Star), (in_range 0x20 0x2F, Star), (in_range 0x40 0x7E, One)] s =
     (case dropWhile (in_range 0x20 0x2F) (dropWhile (in_range 0x30 0x3F) s) of
        [] \<Rightarrow> None
      | f # t \<Rightarrow>
          if in_range 0x40 0x7E f
          then Some ([takeWhile (in_range 0x30 0x3F) s,
                      takeWhile (in_range 0x20 0x2F) (dropWhile (in_range 0x30 0x3F) s), [f]], t)
          else None)"
proof -
  have blocked: "\<And>x t. in_range 0x30 0x3F x \<Longrightarrow>
      match_here [(in_range 0x20 0x2F, Star), (in_range 0x40 0x7E, One)] (x # t) = None"
    unfolding match_inter_final by (simp add: ranges_disjoint)
  have "match_here [(in_range 0x30 0x3F, Star), (in_range 0x20 0x2F, Star), (in_range 0x40 0x7E, One)] s =
      map_option (\<lambda>(ms, t). (takeWhile (in_range 0x30 0x3F) s # ms, t))
        (match_here [(in_range 0x20 0x2F, Star), (in_range 0x40 0x7E, One)]
           (dropWhile (in_range 0x30 0x3F) s))"
    by (rule match_star_greedy) (rule blocked)
  also have "\<dots> = (case dropWhile (in_range 0x20 0x2F) (dropWhile (in_range 0x30 0x3F) s) of
        [] \<Rightarrow> None
      | f # t \<Rightarrow>
          if in_range 0x40 0x7E f
          then Some ([takeWhile (in_range 0x30 0x3F) s,
                      takeWhile (in_range 0x20 0x2F) (dropWhile (in_range 0x30 0x3F) s), [f]], t)
          else None)"
    unfolding match_inter_final by (rule map_case_last)
  finally show ?thesis .
qed

lemma match_csi_tail:
  "map_option snd
     (match_here [(in_range 0x30 0x3F, Star), (in_range 0x20 0x2F, Star), (in_range 0x40 0x7E, One)] u) =
   (case dropWhile (in_range 0x20 0x2F) (dropWhile (in_range 0x30 0x3F) u) of
      [] \<Rightarrow> None
    | f # t \<Rightarrow> if in_range 0x40 0x7E f then Some t else None)"
  unfolding match_param_inter_final by (rule snd_case_last)

lemma snd_map_cons: "map_option snd (map_option (\<lambda>(ms, t). (p # ms, t)) m) = map_option snd m"
  by (cases m) auto

lemma match_ansi_escape: "map_option snd (match_here ansi_escape s) = csi_rest s"
proof (cases s)
  case Nil
  then show ?thesis by (simp add: ansi_escape_def lit_def csi_rest_def)
next
  case (Cons e s')
  show ?thesis
  proof (cases s')
    case Nil
    with Cons show ?thesis by (simp add: ansi_escape_def lit_def csi_rest_def)
  next
    case (Cons b u)
    have "map_option snd (match_here ansi_escape (e # b # u)) =
        (if e = CHR 0x1B \<and> b = CHR ''[''
         then map_option snd
                (match_here [(in_range 0x30 0x3F, Star), (in_range 0x20 0x2F, Star),
                             (in_range 0x40 0x7E, One)] u)
         else None)"
      unfolding ansi_escape_def lit_def
      by (cases "e = CHR 0x1B"; cases "b = CHR ''[''")
         (simp_all del: match_here.simps(3,4) add: snd_map_cons)
    also have "\<dots> = csi_rest (e # b # u)"
      unfolding match_csi_tail csi_rest_def list.case by (rule refl)
    finally show ?thesis using \<open>s = e # s'\<close> Cons by simp
  qed
qed

lemma csi_rest_shorter: "csi_rest s = Some t \<Longrightarrow> length t < length s"
proof -
  assume "csi_rest s = Some t"
  then obtain e b u f where s: "s = e # b # u"
    and d: "dropWhile (in_range 0x20 0x2F) (dropWhile (in_range 0x30 0x3F) u) = f # t"
    by (auto simp: csi_rest_def split: list.splits if_splits)
  have "length (dropWhile (in_range 0x20 0x2F) (dropWhile (in_range 0x30 0x3F) u)) \<le> length u"
    by (meson length_dropWhile_le order_trans)
  with s d show ?thesis by simp
qed

lemma re_sub_ansi_escape: "re_sub ansi_escape [] s = strip_csi s"
proof (induction s rule: strip_csi.induct)
  case 1
  have "match_here ansi_escape [] = None"
    using match_ansi_escape [of "[]"] by (simp add: csi_rest_def)
  then show ?case by simp
next
  case (2 x xs)
  show ?case
  proof (cases "csi_rest (x # xs)")
    case None
    then have "match_here ansi_escape (x # xs) = None"
      using match_ansi_escape [of "x # xs"] by simp
    with None 2 show ?thesis by simp
  next
    case (Some t)
    then obtain ms where m: "match_here ansi_escape (x # xs) = Some (ms, t)"
      using match_ansi_escape [of "x # xs"] by auto
    have "length t < length (x # xs)" using Some by (rule csi_rest_shorter)
    with m Some 2 show ?thesis by simp
  qed
qed

lemma first_some_first:
  "lo \<le> k \<Longrightarrow> f k = Some y \<Longrightarrow> first_some f (rev [lo ..< Suc k]) = Some y"
  by simp

lemma match_plus_last:
  "match_here [(c, Plus)] s =
     (if takeWhile c s = [] then None else Some ([takeWhile c s], dropWhile c s))"
proof (cases "takeWhile c s = []")
  case True
  then show ?thesis by simp
next
  case False
  then have k: "1 \<le> length (takeWhile c s)" by (simp add: Suc_leI)
  have "first_some (\<lambda>n. map_option (\<lambda>(ms, t). (take n s # ms, t)) (match_here [] (drop n s)))
          (rev [1 ..< Suc (length (takeWhile c s))]) =
        Some ([take (length (takeWhile c s)) s], drop (length (takeWhile c s)) s)"
    using k by (intro first_some_first) simp_all
  then show ?thesis using False
    by (simp del: upt_Suc flip: takeWhile_eq_take dropWhile_eq_drop)
qed

lemma digit_not_slash: "isdigit x \<Longrightarrow> x \<noteq> CHR ''/''"
  by (auto simp: isdigit_def in_range_def)

lemma space_not_digit: "isspace x \<Longrightarrow> \<not> isdigit x"
  by (auto simp: isspace_def isdigit_def in_range_def)

lemma match_slash_digits:
  "match_here [lit (CHR ''/''), (isdigit, Plus)] w =
     (case w of
        [] \<Rightarrow> None
      | c # y \<Rightarrow>
          if c = CHR ''/'' \<and> takeWhile isdigit y \<noteq> []
          then Some ([[c], takeWhile isdigit y], dropWhile isdigit y)
          else None)"
  unfolding lit_def match_here.simps(2) match_plus_last
  by (cases w) simp_all

lemma match_digits_slash_digits:
  "match_here [(isdigit, Plus), lit (CHR ''/''), (isdigit, Plus)] v =
     (case dropWhile isdigit v of
        [] \<Rightarrow> None
      | c # y \<Rightarrow>
          if takeWhile isdigit v \<noteq> [] \<and> c = CHR ''/'' \<and> takeWhile isdigit y \<noteq> []
          then Some ([takeWhile isdigit v, [c], takeWhile isdigit y], dropWhile isdigit y)
          else None)"
proof -
  have blocked: "\<And>x t. isdigit x \<Longrightarrow> match_here [lit (CHR ''/''), (isdigit, Plus)] (x # t) = None"
    unfolding match_slash_digits by (simp add: digit_not_slash)
  have "match_here [(isdigit, Plus), lit (CHR ''/''), (isdigit, Plus)] v =
        (if takeWhile isdigit v = [] then None
         else map_option (\<lambda>(ms, t). (takeWhile isdigit v # ms, t))
                (match_here [lit (CHR ''/''), (isdigit, Plus)] (dropWhile isdigit v)))"
    by (rule match_plus_greedy) (rule blocked)
  also have "\<dots> = (case dropWhile isdigit v of
        [] \<Rightarrow> None
      | c # y \<Rightarrow>
          if takeWhile isdigit v \<noteq> [] \<and> c = CHR ''/'' \<and> takeWhile isdigit y \<noteq> []
          then Some ([takeWhile isdigit v, [c], takeWhile isdigit y], dropWhile isdigit y)
          else None)"
    unfolding match_slash_digits by (cases "dropWhile isdigit v") (simp_all del: dropWhile_eq_Nil_conv)
  finally show ?thesis .
qed

lemma match_deploying_tail:
  "match_here [(isspace, Plus), (isdigit, Plus), lit (CHR ''/''), (isdigit, Plus)] u =
     (case dropWhile isdigit (dropWhile isspace u) of
        [] \<Rightarrow> None
      | c # y \<Rightarrow>
          if takeWhile isspace u \<noteq> [] \<and> takeWhile isdigit (dropWhile isspace u) \<noteq> [] \<and>
             c = CHR ''/'' \<and> takeWhile isdigit y \<noteq> []
          then Some ([takeWhile isspace u, takeWhile isdigit (dropWhile isspace u), [c],
                      takeWhile isdigit y], dropWhile isdigit y)
          else None)"
proof -
  have blocked: "\<And>x t. isspace x \<Longrightarrow>
      match_here [(isdigit, Plus), lit (CHR ''/''), (isdigit, Plus)] (x # t) = None"
    unfolding match_digits_slash_digits by (simp add: space_not_digit split: list.splits)
  have "match_here [(isspace, Plus), (isdigit, Plus), lit (CHR ''/''), (isdigit, Plus)] u =
        (if takeWhile isspace u = [] then None
         else map_option (\<lambda>(ms, t). (takeWhile isspace u # ms, t))
                (match_here [(isdigit, Plus), lit (CHR ''/''), (isdigit, Plus)] (dropWhile isspace u)))"
    by (rule match_plus_greedy) (rule blocked)
  also have "\<dots> = (case dropWhile isdigit (dropWhile isspace u) of
        [] \<Rightarrow> None
      | c # y \<Rightarrow>
          if takeWhile isspace u \<noteq> [] \<and> takeWhile isdigit (dropWhile isspace u) \<noteq> [] \<and>
             c = CHR ''/'' \<and> takeWhile isdigit y \<noteq> []
          then Some ([takeWhile isspace u, takeWhile isdigit (dropWhile isspace u), [c],
                      takeWhile isdigit y], dropWhile isdigit y)
          else None)"
    unfolding match_digits_slash_digits
    by (cases "dropWhile isdigit (dropWhile isspace u)")
       (simp_all del: dropWhile_eq_Nil_conv takeWhile_eq_Nil_iff)
  finally show ?thesis .
qed

lemma match_literal_prefix:
  "match_here (map lit p @ r) s =
     (if take (length p) s = p
      then map_option (\<lambda>(ms, t). (map (\<lambda>c. [c]) p @ ms, t)) (match_here r (drop (length p) s))
      else None)"
proof (induction p arbitrary: s)
  case Nil
  show ?case by (cases "match_here r s") auto
next
  case (Cons a p)
  show ?case
  proof (cases s)
    case Nil
    then show ?thesis by (simp add: lit_def)
  next
    case (Cons x xs)
    then show ?thesis
      using Cons.IH [of xs]
      by (cases "match_here r (drop (length p) xs)") (auto simp: lit_def)
  qed
qed

lemma match_deploying:
  "map_option (\<lambda>(ms, t). (group1 ms, group2 ms)) (match_here deploying s) = deploying_at s"
proof -
  have len: "length ''Deploying'' = 9" by simp
  show ?thesis
    unfolding deploying_def match_literal_prefix len match_deploying_tail deploying_at_def Let_def
    by (cases "dropWhile isdigit (dropWhile isspace (drop 9 s))")
       (simp_all add: group1_def group2_def del: dropWhile_eq_Nil_conv takeWhile_eq_Nil_iff)
qed

lemma deploying_at_Nil: "deploying_at [] = None"
  by (simp add: deploying_at_def)

lemma search_deploying:
  "map_option (\<lambda>ms. (group1 ms, group2 ms)) (re_search deploying s) = find_deploying s"
proof (induction s)
  case Nil
  have "map_option (\<lambda>(ms, t). (group1 ms, group2 ms)) (match_here deploying []) = None"
    unfolding match_deploying by (rule deploying_at_Nil)
  then show ?case by (cases "match_here deploying []") auto
next
  case (Cons x xs)
  show ?case
  proof (cases "match_here deploying (x # xs)")
    case None
    then have "deploying_at (x # xs) = None"
      using match_deploying [of "x # xs"] by simp
    with None Cons show ?thesis by simp
  next
    case (Some a)
    then obtain ms t where a: "match_here deploying (x # xs) = Some (ms, t)"
      by (cases a) auto
    then have "deploying_at (x # xs) = Some (group1 ms, group2 ms)"
      using match_deploying [of "x # xs"] by simp
    with a show ?thesis by simp
  qed
qed

lemma deploying_at_shape:
  assumes "deploying_at s = Some (d1, d2)"
  shows "\<exists>ws post. s = ''Deploying'' @ ws @ d1 @ ''/'' @ d2 @ post \<and>
           ws \<noteq> [] \<and> list_all isspace ws \<and> d1 \<noteq> [] \<and> list_all isdigit d1 \<and>
           d2 \<noteq> [] \<and> list_all isdigit d2 \<and> (post = [] \<or> \<not> isdigit (hd post))"
proof -
  define u where "u = drop 9 s"
  define v where "v = dropWhile isspace u"
  from assms have pre: "take 9 s = ''Deploying''"
    by (auto simp: deploying_at_def split: if_splits)
  from assms obtain c y where w: "dropWhile isdigit v = c # y"
    and ws: "takeWhile isspace u \<noteq> []" and d1: "d1 = takeWhile isdigit v" "d1 \<noteq> []"
    and c: "c = CHR ''/''" and d2: "d2 = takeWhile isdigit y" "d2 \<noteq> []"
    unfolding deploying_at_def Let_def u_def v_def
    by (auto split: if_splits list.splits simp del: dropWhile_eq_Nil_conv takeWhile_eq_Nil_iff)
  have "s = take 9 s @ u" by (simp add: u_def)
  also have "u = takeWhile isspace u @ v" by (simp add: v_def)
  also have "v = d1 @ dropWhile isdigit v" by (simp add: d1)
  also have "dropWhile isdigit v = ''/'' @ d2 @ dropWhile isdigit y"
    by (simp add: w c d2)
  finally have s: "s = ''Deploying'' @ takeWhile isspace u @ d1 @ ''/'' @ d2 @ dropWhile isdigit y"
    using pre by simp
  have post: "dropWhile isdigit y = [] \<or> \<not> isdigit (hd (dropWhile isdigit y))"
    by (metis hd_dropWhile)
  have "list_all isspace (takeWhile isspace u)" "list_all isdigit d1" "list_all isdigit d2"
    unfolding d1 d2 list_all_iff by (auto dest: set_takeWhileD)
  with s ws d1 d2 post show ?thesis by blast
qed

lemma deploying_at_complete:
  assumes "ws \<noteq> []" "list_all isspace ws" "d1 \<noteq> []" "list_all isdigit d1"
    "d2 \<noteq> []" "list_all isdigit d2"
  shows "deploying_at (''Deploying'' @ ws @ d1 @ ''/'' @ d2 @ post) \<noteq> None"
proof -
  have a: "\<forall>x\<in>set ws. isspace x" "\<forall>x\<in>set d1. isdigit x" "\<forall>x\<in>set d2. isdigit x"
    using assms by (simp_all add: list_all_iff)
  have h1: "\<not> isspace (hd d1)" using a assms(3) space_not_digit by (metis hd_in_set)
  have tw: "takeWhile isspace (ws @ d1 @ ''/'' @ d2 @ post) = ws"
    using a(1) h1 assms(3) by (cases d1) (simp_all add: takeWhile_append2)
  have dw: "dropWhile isspace (ws @ d1 @ ''/'' @ d2 @ post) = d1 @ ''/'' @ d2 @ post"
    using a(1) h1 assms(3) by (cases d1) (simp_all add: dropWhile_append2)
  have ns: "\<not> isdigit (CHR ''/'')" by (simp add: isdigit_def in_range_def)
  have td: "takeWhile isdigit (d1 @ ''/'' @ d2 @ post) = d1"
    using a(2) ns by (simp add: takeWhile_append2)
  have dd: "dropWhile isdigit (d1 @ ''/'' @ d2 @ post) = ''/'' @ d2 @ post"
    using a(2) ns by (simp add: dropWhile_append2)
  have t2: "takeWhile isdigit (d2 @ post) \<noteq> []"
    using a(3) assms(5) by (cases d2) simp_all
  show ?thesis
    unfolding deploying_at_def Let_def
    using tw dw td dd t2 assms(1,3) by (simp del: takeWhile_eq_Nil_iff)
qed

lemma find_deploying_None: "find_deploying s = None \<longleftrightarrow> (\<forall>i. deploying_at (drop i s) = None)"
proof (induction s)
  case Nil
  then show ?case by (simp add: deploying_at_Nil)
next
  case (Cons x xs)
  have "(\<forall>i. deploying_at (drop i (x # xs)) = None) \<longleftrightarrow>
        deploying_at (x # xs) = None \<and> (\<forall>i. deploying_at (drop i xs) = None)"
  proof
    assume h: "\<forall>i. deploying_at (drop i (x # xs)) = None"
    have "deploying_at (x # xs) = None" using h [rule_format, of 0] by simp
    moreover have "\<forall>i. deploying_at (drop i xs) = None"
    proof
      fix i show "deploying_at (drop i xs) = None" using h [rule_format, of "Suc i"] by simp
    qed
    ultimately show "deploying_at (x # xs) = None \<and> (\<forall>i. deploying_at (drop i xs) = None)" ..
  next
    assume h: "deploying_at (x # xs) = None \<and> (\<forall>i. deploying_at (drop i xs) = None)"
    show "\<forall>i. deploying_at (drop i (x # xs)) = None"
    proof
      fix i show "deploying_at (drop i (x # xs)) = None" using h by (cases i) simp_all
    qed
  qed
  with Cons show ?case by (simp split: option.splits)
qed

lemma find_deploying_Some:
  "find_deploying s = Some p \<Longrightarrow>
     \<exists>pre t. s = pre @ t \<and> deploying_at t = Some p \<and> (\<forall>i<length pre. deploying_at (drop i s) = None)"
proof (induction s)
  case Nil
  then show ?case by simp
next
  case (Cons x xs)
  show ?case
  proof (cases "deploying_at (x # xs)")
    case (Some q)
    with Cons.prems have "deploying_at (x # xs) = Some p" by simp
    then have "x # xs = [] @ (x # xs) \<and> deploying_at (x # xs) = Some p \<and>
        (\<forall>i<length ([]::string). deploying_at (drop i (x # xs)) = None)" by simp
    then show ?thesis by blast
  next
    case None
    with Cons.prems have "find_deploying xs = Some p" by simp
    then obtain pre t where pt: "xs = pre @ t" "deploying_at t = Some p"
      "\<forall>i<length pre. deploying_at (drop i xs) = None"
      using Cons.IH by blast
    have "\<forall>i<length (x # pre). deploying_at (drop i (x # xs)) = None"
    proof (intro allI impI)
      fix i assume "i < length (x # pre)"
      then show "deploying_at (drop i (x # xs)) = None"
        using None pt(3) by (cases i) simp_all
    qed
    with pt(1,2) have "x # xs = (x # pre) @ t \<and> deploying_at t = Some p \<and>
        (\<forall>i<length (x # pre). deploying_at (drop i (x # xs)) = None)" by simp
    then show ?thesis by blast
  qed
qed

lemma find_deploying_iff: "find_deploying s \<noteq> None \<longleftrightarrow> has_deploying s"
proof
  assume "find_deploying s \<noteq> None"
  then obtain d1 d2 where "find_deploying s = Some (d1, d2)" by (cases "find_deploying s") auto
  then obtain pre t where s: "s = pre @ t" and t: "deploying_at t = Some (d1, d2)"
    using find_deploying_Some by blast
  from deploying_at_shape [OF t] s show "has_deploying s"
    unfolding has_deploying_def by blast
next
  assume "has_deploying s"
  then obtain pre ws d1 d2 post where s: "s = pre @ ''Deploying'' @ ws @ d1 @ ''/'' @ d2 @ post"
    and a: "ws \<noteq> []" "list_all isspace ws" "d1 \<noteq> []" "list_all isdigit d1" "d2 \<noteq> []" "list_all isdigit d2"
    unfolding has_deploying_def by blast
  have d: "drop (length pre) s = ''Deploying'' @ ws @ d1 @ ''/'' @ d2 @ post"
    by (subst s) simp
  have hit: "deploying_at (drop (length pre) s) \<noteq> None"
    unfolding d by (rule deploying_at_complete [OF a])
  show "find_deploying s \<noteq> None"
  proof
    assume "find_deploying s = None"
    then have "\<forall>i. deploying_at (drop i s) = None" by (simp add: find_deploying_None)
    then have "deploying_at (drop (length pre) s) = None" by (rule spec)
    with hit show False by (rule notE)
  qed
qed

lemma match_skip_sep:
  "match_here skip_sep (x # xs) =
     (if is_sep x then Some ([x # takeWhile is_sep xs], dropWhile is_sep xs) else None)"
  unfolding skip_sep_def match_plus_last by simp

lemma tokens_from_drop_seps: "tokens_from [] (dropWhile is_sep xs) = tokens_from [] xs"
  by (induction xs) simp_all

lemma split_from_tokens:
  "filter (\<lambda>t. t \<noteq> []) (split_from skip_sep cur s) = tokens_from cur s"
proof (induction s arbitrary: cur rule: length_induct)
  case (1 s)
  show ?case
  proof (cases s)
    case Nil
    then show ?thesis by simp
  next
    case (Cons x xs)
    show ?thesis
    proof (cases "is_sep x")
      case True
      have len: "length (dropWhile is_sep xs) < length s"
        using Cons by (simp add: le_imp_less_Suc length_dropWhile_le)
      have "filter (\<lambda>t. t \<noteq> []) (split_from skip_sep [] (dropWhile is_sep xs)) =
            tokens_from [] (dropWhile is_sep xs)"
        using 1 len by blast
      then show ?thesis
        using Cons True len by (simp add: match_skip_sep tokens_from_drop_seps)
    next
      case False
      have "filter (\<lambda>t. t \<noteq> []) (split_from skip_sep (cur @ [x]) xs) = tokens_from (cur @ [x]) xs"
        using 1 Cons by simp
      then show ?thesis using Cons False by (simp add: match_skip_sep)
    qed
  qed
qed

lemma split_from_no_sep:
  "\<forall>c\<in>set cur. \<not> is_sep c \<Longrightarrow> t \<in> set (split_from skip_sep cur s) \<Longrightarrow> \<forall>c\<in>set t. \<not> is_sep c"
proof (induction s arbitrary: cur rule: length_induct)
  case (1 s)
  show ?case
  proof (cases s)
    case Nil
    with 1 show ?thesis by simp
  next
    case (Cons x xs)
    show ?thesis
    proof (cases "is_sep x")
      case True
      have len: "length (dropWhile is_sep xs) < length s"
        using Cons by (simp add: le_imp_less_Suc length_dropWhile_le)
      from 1(3) Cons True len have "t = cur \<or> t \<in> set (split_from skip_sep [] (dropWhile is_sep xs))"
        by (simp add: match_skip_sep)
      then show ?thesis
      proof
        assume "t = cur" with 1(2) show ?thesis by simp
      next
        assume "t \<in> set (split_from skip_sep [] (dropWhile is_sep xs))"
        with 1(1) len show ?thesis by (metis empty_iff list.set(1))
      qed
    next
      case False
      from 1(3) Cons False have "t \<in> set (split_from skip_sep (cur @ [x]) xs)"
        by (simp add: match_skip_sep)
      moreover have "\<forall>c\<in>set (cur @ [x]). \<not> is_sep c" using 1(2) False by simp
      moreover have "length xs < length s" using Cons by simp
      ultimately show ?thesis using 1(1) by blast
    qed
  qed
qed

lemma strip_no_space: "\<forall>c\<in>set t. \<not> isspace c \<Longrightarrow> strip t = t"
proof -
  assume a: "\<forall>c\<in>set t. \<not> isspace c"
  have "dropWhile isspace t = t" using a by (cases t) simp_all
  moreover have "dropWhile isspace (rev t) = rev t" using a by (cases "rev t") (simp, metis dropWhile.simps(2) list.set_intros(1) set_rev)
  ultimately show ?thesis by (simp add: strip_def)
qed

lemma foldl_add_skip:
  "\<forall>t\<in>set toks. strip t = t \<Longrightarrow>
   foldl add_skip cmd toks = cmd @ concat (map (\<lambda>t. [''--skip'', t]) (filter (\<lambda>t. t \<noteq> []) toks))"
  by (induction toks arbitrary: cmd) (simp_all add: add_skip_def Let_def)

lemma tokens_from_snoc_sep: "is_sep x \<Longrightarrow> tokens_from cur (s @ [x]) = tokens_from cur s"
  by (induction s arbitrary: cur) simp_all

lemma tokens_from_append_seps:
  "\<forall>c\<in>set k. is_sep c \<Longrightarrow> tokens_from cur (s @ k) = tokens_from cur s"
proof (induction k rule: rev_induct)
  case Nil
  then show ?case by simp
next
  case (snoc x k)
  then have "tokens_from cur ((s @ k) @ [x]) = tokens_from cur (s @ k)"
    by (intro tokens_from_snoc_sep) simp
  with snoc show ?case by simp
qed

lemma tokens_from_drop_space: "tokens_from [] (dropWhile isspace xs) = tokens_from [] xs"
  by (induction xs) (simp_all add: is_sep_def)

lemma spec_tokens_strip: "spec_tokens (strip s) = spec_tokens s"
proof -
  define u where "u = dropWhile isspace s"
  have "u = rev (dropWhile isspace (rev u)) @ rev (takeWhile isspace (rev u))"
    by (metis rev_append rev_rev_ident takeWhile_dropWhile_id)
  moreover have "\<forall>c\<in>set (rev (takeWhile isspace (rev u))). is_sep c"
    by (auto simp: is_sep_def dest: set_takeWhileD)
  ultimately have "tokens_from [] u = tokens_from [] (rev (dropWhile isspace (rev u)))"
    by (metis tokens_from_append_seps)
  then show ?thesis
    unfolding spec_tokens_def strip_def u_def by (simp add: tokens_from_drop_space)
qed

lemma build_cmd_tokens:
  "build_cmd path tgt (strip raw) =
     [''python3'', ''-u'', path, ''-n''] @ concat (map (\<lambda>t. [''--skip'', t]) (spec_tokens raw)) @ [tgt]"
proof -
  have ns: "\<forall>t\<in>set (re_split skip_sep (strip raw)). strip t = t"
  proof
    fix t assume "t \<in> set (re_split skip_sep (strip raw))"
    then have "\<forall>c\<in>set t. \<not> is_sep c"
      unfolding re_split_def using split_from_no_sep [of "[]"] by simp
    then show "strip t = t" by (intro strip_no_space) (simp add: is_sep_def)
  qed
  have toks: "filter (\<lambda>t. t \<noteq> []) (re_split skip_sep (strip raw)) = spec_tokens (strip raw)"
    unfolding re_split_def spec_tokens_def by (rule split_from_tokens)
  have "foldl add_skip [''python3'', ''-u'', path, ''-n''] (re_split skip_sep (strip raw)) =
        [''python3'', ''-u'', path, ''-n''] @
        concat (map (\<lambda>t. [''--skip'', t]) (filter (\<lambda>t. t \<noteq> []) (re_split skip_sep (strip raw))))"
    by (rule foldl_add_skip [OF ns])
  then have "foldl add_skip [''python3'', ''-u'', path, ''-n''] (re_split skip_sep (strip raw)) =
        [''python3'', ''-u'', path, ''-n''] @
        concat (map (\<lambda>t. [''--skip'', t]) (spec_tokens (strip raw)))"
    unfolding toks .
  moreover have "strip raw = [] \<Longrightarrow> spec_tokens (strip raw) = []"
    by (simp add: spec_tokens_def)
  ultimately show ?thesis
    unfolding build_cmd_def Let_def spec_tokens_strip [symmetric, of raw]
    by (cases "strip raw = []") simp_all
qed

lemma tokens_from_props:
  "\<forall>c\<in>set cur. \<not> is_sep c \<Longrightarrow> t \<in> set (tokens_from cur s) \<Longrightarrow> t \<noteq> [] \<and> (\<forall>c\<in>set t. \<not> is_sep c)"
proof (induction s arbitrary: cur)
  case Nil
  then show ?case by (cases "cur = []") simp_all
next
  case (Cons x xs)
  show ?case
  proof (cases "is_sep x")
    case True
    have empty: "\<forall>c\<in>set ([]::string). \<not> is_sep c" by simp
    show ?thesis
    proof (cases "cur = []")
      case True
      with Cons.prems(2) \<open>is_sep x\<close> have "t \<in> set (tokens_from [] xs)" by simp
      with Cons.IH [OF empty] show ?thesis .
    next
      case False
      with Cons.prems(2) \<open>is_sep x\<close> have "t = cur \<or> t \<in> set (tokens_from [] xs)" by simp
      then show ?thesis
      proof
        assume "t = cur" with False Cons.prems(1) show ?thesis by simp
      next
        assume "t \<in> set (tokens_from [] xs)"
        with Cons.IH [OF empty] show ?thesis .
      qed
    qed
  next
    case False
    with Cons.prems(2) have m: "t \<in> set (tokens_from (cur @ [x]) xs)" by simp
    have "\<forall>c\<in>set (cur @ [x]). \<not> is_sep c" using Cons.prems(1) False by simp
    from Cons.IH [OF this m] show ?thesis .
  qed
qed

lemma tokens_from_concat:
  "concat (tokens_from cur s) = cur @ filter (\<lambda>c. \<not> is_sep c) s"
  by (induction cur s rule: tokens_from.induct) auto

lemma tokens_all_sep: "\<forall>c\<in>set s. is_sep c \<Longrightarrow> tokens_from [] s = []"
  by (induction s) simp_all

section \<open>The progress extractor\<close>

lemma search_groups:
  assumes "re_search deploying clean = Some ms"
  shows "find_deploying clean = Some (group1 ms, group2 ms)"
    and "group1 ms \<noteq> []" and "list_all isdigit (group1 ms)"
    and "group2 ms \<noteq> []" and "list_all isdigit (group2 ms)"
proof -
  show f: "find_deploying clean = Some (group1 ms, group2 ms)"
    using search_deploying [of clean] assms by simp
  then obtain pre t where "deploying_at t = Some (group1 ms, group2 ms)"
    using find_deploying_Some by blast
  from deploying_at_shape [OF this]
  show "group1 ms \<noteq> []" "list_all isdigit (group1 ms)" "group2 ms \<noteq> []" "list_all isdigit (group2 ms)"
    by blast+
qed

lemma py_int_digits:
  "d \<noteq> [] \<Longrightarrow> list_all isdigit d \<Longrightarrow>
   py_int lim d = (if exceeds_limit lim d then Inl ValueError else Inr (dec_value d))"
  by (simp add: py_int_def)

lemma parse_progress_groups:
  assumes "re_search deploying clean = Some ms"
  shows "parse_progress lim ms =
     (if exceeds_limit lim (group1 ms) \<or> exceeds_limit lim (group2 ms) then Inl ValueError
      else Inr (dec_value (group1 ms), dec_value (group2 ms)))"
  using search_groups(2-5) [OF assms]
  by (simp add: parse_progress_def py_int_digits)

lemma update_progress_find:
  "update_progress lim clean m =
     Inr (case find_deploying clean of
            None \<Rightarrow> m
          | Some (d1, d2) \<Rightarrow>
              if exceeds_limit lim d1 \<or> exceeds_limit lim d2 then m
              else m\<lparr>progress := dec_value d1, total := dec_value d2\<rparr>)"
proof (cases "re_search deploying clean")
  case None
  then have "find_deploying clean = None" using search_deploying [of clean] by simp
  with None show ?thesis by (simp add: update_progress_def)
next
  case (Some ms)
  from search_groups(1) [OF Some] parse_progress_groups [OF Some, of lim] Some
  show ?thesis by (simp add: update_progress_def)
qed

lemma enqueue_output_line_find:
  "enqueue_output_line lim line m =
     Inr (q_put (sanitize line)
            (case find_deploying (sanitize line) of
               None \<Rightarrow> m
             | Some (d1, d2) \<Rightarrow>
                 if exceeds_limit lim d1 \<or> exceeds_limit lim d2 then m
                 else m\<lparr>progress := dec_value d1, total := dec_value d2\<rparr>))"
  by (simp add: enqueue_output_line_def Let_def update_progress_find)

text \<open>
  Claim C2. For every sanitized line and every session state, the progress extractor of
  lines 27 to 36 stores the pair (current, total) exactly when the line contains a report
  \<open>Deploying <digits>/<digits>\<close>, the word and the first number being separated by
  whitespace, and both numbers convert: the pair is that of the leftmost report, with each
  number taken as the longest run of digits. On a line without a report, and on a report
  whose conversion fails, the state is returned unchanged. The extractor and the whole
  loop body always return a state and never an exception.
\<close>

theorem progress_extractor:
  "update_progress lim clean m =
     Inr (case find_deploying clean of
            None \<Rightarrow> m
          | Some (d1, d2) \<Rightarrow>
              if exceeds_limit lim d1 \<or> exceeds_limit lim d2 then m
              else m\<lparr>progress := dec_value d1, total := dec_value d2\<rparr>)
   \<and> (find_deploying clean \<noteq> None) = has_deploying clean
   \<and> (\<forall>d1 d2. find_deploying clean = Some (d1, d2) \<longrightarrow>
         (\<exists>pre ws post.
            clean = pre @ ''Deploying'' @ ws @ d1 @ ''/'' @ d2 @ post \<and>
            ws \<noteq> [] \<and> list_all isspace ws \<and> d1 \<noteq> [] \<and> list_all isdigit d1 \<and>
            d2 \<noteq> [] \<and> list_all isdigit d2 \<and> (post = [] \<or> \<not> isdigit (hd post)) \<and>
            (\<forall>i<length pre. deploying_at (drop i clean) = None)))
   \<and> (\<exists>m'. enqueue_output_line lim line m = Inr m')"
proof (intro conjI allI impI)
  show "update_progress lim clean m =
     Inr (case find_deploying clean of
            None \<Rightarrow> m
          | Some (d1, d2) \<Rightarrow>
              if exceeds_limit lim d1 \<or> exceeds_limit lim d2 then m
              else m\<lparr>progress := dec_value d1, total := dec_value d2\<rparr>)"
    by (rule update_progress_find)
  show "(find_deploying clean \<noteq> None) = has_deploying clean"
    by (rule find_deploying_iff)
  show "\<exists>m'. enqueue_output_line lim line m = Inr m'"
    by (simp add: enqueue_output_line_find)
next
  fix d1 d2 assume "find_deploying clean = Some (d1, d2)"
  then obtain pre t where c: "clean = pre @ t" and t: "deploying_at t = Some (d1, d2)"
    and l: "\<forall>i<length pre. deploying_at (drop i clean) = None"
    using find_deploying_Some by blast
  from deploying_at_shape [OF t] c l
  show "\<exists>pre ws post.
            clean = pre @ ''Deploying'' @ ws @ d1 @ ''/'' @ d2 @ post \<and>
            ws \<noteq> [] \<and> list_all isspace ws \<and> d1 \<noteq> [] \<and> list_all isdigit d1 \<and>
            d2 \<noteq> [] \<and> list_all isdigit d2 \<and> (post = [] \<or> \<not> isdigit (hd post)) \<and>
            (\<forall>i<length pre. deploying_at (drop i clean) = None)"
    by blast
qed

lemma find_ex1: "find_deploying ''Deploying 3/81 | foo'' = Some (''3'', ''81'')"
  by (simp add: deploying_at_def isspace_def isdigit_def in_range_def)

lemma find_ex2: "find_deploying ''no number here'' = None"
  by (simp add: deploying_at_def)

lemma find_ex3: "find_deploying ''Deploying abc/81'' = None"
  by (simp add: deploying_at_def isspace_def isdigit_def in_range_def)

lemma dec_ex: "dec_value ''3'' = 3" "dec_value ''81'' = 81"
  by (simp_all add: dec_value_def digit_val_def)

theorem progress_extractor_witness:
  "update_progress 4300 ''Deploying 3/81 | foo'' sample_meta =
     Inr (sample_meta\<lparr>progress := 3, total := 81\<rparr>)
   \<and> has_deploying ''Deploying 3/81 | foo''
   \<and> update_progress 4300 ''no number here'' sample_meta = Inr sample_meta
   \<and> update_progress 4300 ''Deploying abc/81'' sample_meta = Inr sample_meta"
  using progress_extractor [of 4300 "''Deploying 3/81 | foo''" sample_meta "[]", THEN conjunct1]
    progress_extractor [of 4300 "''Deploying 3/81 | foo''" sample_meta "[]", THEN conjunct2, THEN conjunct1]
    progress_extractor [of 4300 "''no number here''" sample_meta "[]", THEN conjunct1]
    progress_extractor [of 4300 "''Deploying abc/81''" sample_meta "[]", THEN conjunct1]
  by (simp del: find_deploying.simps
        add: find_ex1 find_ex2 find_ex3 dec_ex exceeds_limit_def str_digits_check_threshold_def)

section \<open>Integer conversion of the captured groups\<close>

lemma find_long_total:
  "find_deploying (''Deploying 1/'' @ replicate 4301 (CHR ''9'')) =
     Some (''1'', replicate 4301 (CHR ''9''))"
proof -
  have d: "isdigit (CHR ''9'')" "isdigit (CHR ''1'')" "\<not> isdigit (CHR ''/'')"
    "isspace (CHR '' '')" "\<not> isspace (CHR ''1'')"
    by (simp_all add: isdigit_def isspace_def in_range_def)
  have "deploying_at (''Deploying 1/'' @ replicate 4301 (CHR ''9'')) =
     Some (''1'', replicate 4301 (CHR ''9''))"
    unfolding deploying_at_def Let_def by (simp add: d)
  then show ?thesis by simp
qed

lemma search_some_iff: "(re_search deploying s \<noteq> None) = (find_deploying s \<noteq> None)"
proof (cases "re_search deploying s")
  case None
  then show ?thesis using search_deploying [of s] by simp
next
  case (Some ms)
  then have "find_deploying s = Some (group1 ms, group2 ms)"
    using search_deploying [of s] by simp
  with Some show ?thesis by simp
qed

text \<open>
  Claim C10, as stated, fails: with the interpreter's default limit of 4300 digits, the
  line \<open>Deploying 1/99...9\<close> with 4301 nines matches the pattern, the conversion of the
  second group raises \<open>ValueError\<close>, and the progress pair stays as it was.
\<close>

theorem int_conversion_raises_on_long_group:
  "re_search deploying (''Deploying 1/'' @ replicate 4301 (CHR ''9'')) \<noteq> None
   \<and> find_deploying (''Deploying 1/'' @ replicate 4301 (CHR ''9'')) =
       Some (''1'', replicate 4301 (CHR ''9''))
   \<and> py_int 4300 (replicate 4301 (CHR ''9'')) = Inl ValueError
   \<and> update_progress 4300 (''Deploying 1/'' @ replicate 4301 (CHR ''9'')) sample_meta =
       Inr sample_meta"
proof (intro conjI)
  show "re_search deploying (''Deploying 1/'' @ replicate 4301 (CHR ''9'')) \<noteq> None"
    unfolding search_some_iff find_long_total by simp
  show "find_deploying (''Deploying 1/'' @ replicate 4301 (CHR ''9'')) =
       Some (''1'', replicate 4301 (CHR ''9''))"
    by (rule find_long_total)
  have ex: "exceeds_limit 4300 (replicate 4301 (CHR ''9''))"
    by (simp add: exceeds_limit_def str_digits_check_threshold_def)
  have "isdigit (CHR ''9'')" by (simp add: isdigit_def in_range_def)
  then have "list_all isdigit (replicate 4301 (CHR ''9''))" by (simp add: list_all_iff)
  with ex show "py_int 4300 (replicate 4301 (CHR ''9'')) = Inl ValueError"
    by (simp add: py_int_def)
  show "update_progress 4300 (''Deploying 1/'' @ replicate 4301 (CHR ''9'')) sample_meta =
       Inr sample_meta"
    unfolding update_progress_find find_long_total using ex by simp
qed

text \<open>
  Claim C10, amended. Whenever the pattern matches, both groups are non-empty strings of
  decimal digits, and the two conversions succeed unless a group is longer than the
  interpreter's limit on integer strings: the progress pair is then set to the two
  numbers. They always succeed when the limit is switched off and when neither group has
  more than 640 digits. When a group is longer than the limit, the conversion raises, the
  handler of line 35 is reached and the pair is left unchanged.
\<close>

theorem int_conversion_guard:
  assumes "re_search deploying clean = Some ms"
  shows "group1 ms \<noteq> [] \<and> list_all isdigit (group1 ms)
     \<and> group2 ms \<noteq> [] \<and> list_all isdigit (group2 ms)
     \<and> parse_progress lim ms =
         (if exceeds_limit lim (group1 ms) \<or> exceeds_limit lim (group2 ms) then Inl ValueError
          else Inr (dec_value (group1 ms), dec_value (group2 ms)))
     \<and> update_progress lim clean m =
         Inr (if exceeds_limit lim (group1 ms) \<or> exceeds_limit lim (group2 ms) then m
              else m\<lparr>progress := dec_value (group1 ms), total := dec_value (group2 ms)\<rparr>)
     \<and> parse_progress 0 ms = Inr (dec_value (group1 ms), dec_value (group2 ms))
     \<and> (length (group1 ms) \<le> 640 \<and> length (group2 ms) \<le> 640 \<longrightarrow>
          parse_progress lim ms = Inr (dec_value (group1 ms), dec_value (group2 ms)))"
proof -
  note g = search_groups [OF assms]
  have p: "parse_progress lim ms =
         (if exceeds_limit lim (group1 ms) \<or> exceeds_limit lim (group2 ms) then Inl ValueError
          else Inr (dec_value (group1 ms), dec_value (group2 ms)))" for lim
    by (rule parse_progress_groups [OF assms])
  have u: "update_progress lim clean m =
         Inr (if exceeds_limit lim (group1 ms) \<or> exceeds_limit lim (group2 ms) then m
              else m\<lparr>progress := dec_value (group1 ms), total := dec_value (group2 ms)\<rparr>)"
    unfolding update_progress_find g(1) by simp
  have z: "parse_progress 0 ms = Inr (dec_value (group1 ms), dec_value (group2 ms))"
    unfolding p by (simp add: exceeds_limit_def)
  have s: "length (group1 ms) \<le> 640 \<and> length (group2 ms) \<le> 640 \<longrightarrow>
          parse_progress lim ms = Inr (dec_value (group1 ms), dec_value (group2 ms))"
    unfolding p by (simp add: exceeds_limit_def str_digits_check_threshold_def)
  from g(2-5) p u z s show ?thesis by blast
qed

lemma search_short_report:
  "re_search deploying ''Deploying 3/81'' =
     Some [''D'', ''e'', ''p'', ''l'', ''o'', ''y'', ''i'', ''n'', ''g'', '' '', ''3'', ''/'', ''81'']"
  by (simp add: deploying_def lit_def isspace_def isdigit_def in_range_def)

theorem int_conversion_guard_witness:
  "re_search deploying ''Deploying 3/81'' =
     Some [''D'', ''e'', ''p'', ''l'', ''o'', ''y'', ''i'', ''n'', ''g'', '' '', ''3'', ''/'', ''81'']
   \<and> parse_progress 4300
       [''D'', ''e'', ''p'', ''l'', ''o'', ''y'', ''i'', ''n'', ''g'', '' '', ''3'', ''/'', ''81''] =
       Inr (3, 81)
   \<and> update_progress 4300 ''Deploying 3/81'' sample_meta =
       Inr (sample_meta\<lparr>progress := 3, total := 81\<rparr>)"
proof -
  note w = int_conversion_guard [OF search_short_report, of 4300 sample_meta]
  have g: "group1 [''D'', ''e'', ''p'', ''l'', ''o'', ''y'', ''i'', ''n'', ''g'', '' '', ''3'', ''/'', ''81''] = ''3''"
    "group2 [''D'', ''e'', ''p'', ''l'', ''o'', ''y'', ''i'', ''n'', ''g'', '' '', ''3'', ''/'', ''81''] = ''81''"
    by (simp_all add: group1_def group2_def)
  have e: "\<not> exceeds_limit 4300 ''3''" "\<not> exceeds_limit 4300 ''81''"
    by (simp_all add: exceeds_limit_def str_digits_check_threshold_def)
  from w show ?thesis
    unfolding g using e by (simp del: re_search.simps add: search_short_report dec_ex)
qed

section \<open>The line sanitizer\<close>

lemma csi_rest_suffix: "csi_rest s = Some t \<Longrightarrow> suffix t s"
proof -
  assume "csi_rest s = Some t"
  then obtain e b u f where s: "s = e # b # u"
    and d: "dropWhile (in_range 0x20 0x2F) (dropWhile (in_range 0x30 0x3F) u) = f # t"
    by (auto simp: csi_rest_def split: list.splits if_splits)
  have "suffix (dropWhile (in_range 0x20 0x2F) (dropWhile (in_range 0x30 0x3F) u)) u"
    by (meson suffix_dropWhile suffix_order.trans)
  then have "suffix (f # t) u" by (simp only: d)
  then have "suffix t u" by (rule suffix_ConsD)
  then show "suffix t s" unfolding s by (simp add: suffix_Cons)
qed

lemma strip_csi_subseq: "subseq (strip_csi s) s"
proof (induction s rule: strip_csi.induct)
  case 1
  show ?case by simp
next
  case (2 x xs)
  show ?case
  proof (cases "csi_rest (x # xs)")
    case None
    with 2 show ?thesis by simp
  next
    case (Some t)
    then have a: "subseq (strip_csi t) t" using 2 by simp
    have b: "subseq t (x # xs)"
      using csi_rest_suffix [OF Some] by (meson suffix_imp_sublist sublist_imp_subseq)
    have e: "strip_csi (x # xs) = strip_csi t" using Some by simp
    from a b have "subseq (strip_csi t) (x # xs)" by (rule subseq_order.trans)
    then show ?thesis unfolding e .
  qed
qed

lemma strip_csi_unchanged: "(\<forall>i. csi_rest (drop i s) = None) \<Longrightarrow> strip_csi s = s"
proof (induction s)
  case Nil
  show ?case by simp
next
  case (Cons x xs)
  have h: "csi_rest (x # xs) = None" using Cons.prems [rule_format, of 0] by simp
  have "\<forall>i. csi_rest (drop i xs) = None"
  proof
    fix i show "csi_rest (drop i xs) = None" using Cons.prems [rule_format, of "Suc i"] by simp
  qed
  with Cons.IH h show ?case by simp
qed

lemma rstrip_decomp:
  "\<exists>n. line = rstrip [c] line @ replicate n c"
proof -
  have "line = rev (dropWhile (\<lambda>x. x = c) (rev line)) @ rev (takeWhile (\<lambda>x. x = c) (rev line))"
    by (metis rev_append rev_rev_ident takeWhile_dropWhile_id)
  moreover have "takeWhile (\<lambda>x. x = c) (rev line) =
      replicate (length (takeWhile (\<lambda>x. x = c) (rev line))) c"
    by (rule replicate_length_same [symmetric]) (auto dest: set_takeWhileD)
  ultimately have "line = rstrip [c] line @ replicate (length (takeWhile (\<lambda>x. x = c) (rev line))) c"
    by (simp add: rstrip_def) (metis rev_replicate)
  then show ?thesis ..
qed

lemma rstrip_last: "rstrip [c] line = [] \<or> last (rstrip [c] line) \<noteq> c"
proof (cases "dropWhile (\<lambda>x. x = c) (rev line)")
  case Nil
  then show ?thesis by (simp add: rstrip_def)
next
  case (Cons y ys)
  then have "y \<noteq> c" using hd_dropWhile [of "\<lambda>x. x = c" "rev line"] by simp
  with Cons show ?thesis by (simp add: rstrip_def)
qed

lemma rstrip_subseq: "subseq (rstrip [c] line) line"
proof -
  obtain n where "line = rstrip [c] line @ replicate n c" using rstrip_decomp by blast
  then have "prefix (rstrip [c] line) line" by (rule prefixI)
  then show ?thesis by (rule prefix_imp_subseq)
qed

lemma rstrip_line_no_newline:
  assumes "c \<notin> set (butlast line)"
  shows "c \<notin> set (rstrip [c] line)"
proof
  assume m: "c \<in> set (rstrip [c] line)"
  then have "rstrip [c] line \<noteq> []" by auto
  then obtain ys y where r: "rstrip [c] line = ys @ [y]" by (meson rev_exhaust)
  with rstrip_last [of c line] have "y \<noteq> c" by simp
  with m r have ys: "c \<in> set ys" by simp
  obtain n where "line = rstrip [c] line @ replicate n c" using rstrip_decomp by blast
  then have "line = ys @ y # replicate n c" using r by simp
  then have "butlast line = ys @ butlast (y # replicate n c)"
    by (simp add: butlast_append)
  with ys have "c \<in> set (butlast line)" by simp
  with assms show False by blast
qed

lemma sanitize_strip_csi: "sanitize line = strip_csi (rstrip [CHR 0x0A] line)"
  by (simp add: sanitize_def re_sub_ansi_escape)

lemma subseq_set: "subseq xs ys \<Longrightarrow> set xs \<subseteq> set ys"
proof
  fix x assume "subseq xs ys" and "x \<in> set xs"
  then have "subseq [x] xs" by (simp add: subseq_singleton_left)
  with \<open>subseq xs ys\<close> have "subseq [x] ys" by (meson subseq_order.trans)
  then show "x \<in> set ys" by (simp add: subseq_singleton_left)
qed

lemma csi_rest_no_esc: "CHR 0x1B \<notin> set s \<Longrightarrow> csi_rest s = None"
  by (auto simp: csi_rest_def split: list.splits)

text \<open>
  Claim C9, as stated, fails. \<open>ESC c\<close>, the reset sequence of the VT100, is an escape
  sequence and is returned as it is. And what is left after a removal is not looked at
  again: from \<open>ESC [ ESC [ m m\<close> the inner sequence is removed, and the result \<open>ESC [ m\<close>
  is itself a control sequence.
\<close>

theorem sanitize_keeps_some_escape_sequences:
  "is_escape_sequence [CHR 0x1B, CHR ''c'']
   \<and> sanitize [CHR 0x1B, CHR ''c''] = [CHR 0x1B, CHR ''c'']
   \<and> sanitize [CHR 0x1B, CHR ''['', CHR 0x1B, CHR ''['', CHR ''m'', CHR ''m''] =
       [CHR 0x1B, CHR ''['', CHR ''m'']
   \<and> csi_rest [CHR 0x1B, CHR ''['', CHR ''m''] = Some []"
  by (simp add: is_escape_sequence_def sanitize_strip_csi rstrip_def csi_rest_def in_range_def)

text \<open>
  Claim C9, amended. The line sanitizer is a total function. It takes the trailing newline
  characters off the line and then, scanning once from the left, drops every control
  sequence it meets: \<open>ESC [\<close>, parameter bytes \<open>0x30\<close> to \<open>0x3F\<close>, intermediate bytes \<open>0x20\<close>
  to \<open>0x2F\<close> and a final byte \<open>0x40\<close> to \<open>0x7E\<close>. All other text, other escape sequences
  and incomplete control sequences included, is kept in place and in order: the result is
  a subsequence of the line, and it is the line without its trailing newlines when no
  control sequence starts anywhere in it, in particular when the line has no \<open>ESC\<close>. The
  result of a line that has no newline before its end has no newline at all.
\<close>

theorem sanitize_strips_control_sequences:
  "sanitize line = strip_csi (rstrip [CHR 0x0A] line)
   \<and> (\<exists>n. line = rstrip [CHR 0x0A] line @ replicate n (CHR 0x0A))
   \<and> (rstrip [CHR 0x0A] line = [] \<or> last (rstrip [CHR 0x0A] line) \<noteq> CHR 0x0A)
   \<and> subseq (sanitize line) line
   \<and> ((\<forall>i. csi_rest (drop i (rstrip [CHR 0x0A] line)) = None) \<longrightarrow>
        sanitize line = rstrip [CHR 0x0A] line)
   \<and> (CHR 0x1B \<notin> set line \<longrightarrow> sanitize line = rstrip [CHR 0x0A] line)
   \<and> (CHR 0x0A \<notin> set (butlast line) \<longrightarrow> CHR 0x0A \<notin> set (sanitize line))"
proof (intro conjI impI)
  show "sanitize line = strip_csi (rstrip [CHR 0x0A] line)" by (rule sanitize_strip_csi)
  show "\<exists>n. line = rstrip [CHR 0x0A] line @ replicate n (CHR 0x0A)" by (rule rstrip_decomp)
  show "rstrip [CHR 0x0A] line = [] \<or> last (rstrip [CHR 0x0A] line) \<noteq> CHR 0x0A"
    by (rule rstrip_last)
  have "subseq (strip_csi (rstrip [CHR 0x0A] line)) (rstrip [CHR 0x0A] line)"
    by (rule strip_csi_subseq)
  then show sub: "subseq (sanitize line) line"
    unfolding sanitize_strip_csi using rstrip_subseq by (rule subseq_order.trans)
  {
    assume "\<forall>i. csi_rest (drop i (rstrip [CHR 0x0A] line)) = None"
    then show "sanitize line = rstrip [CHR 0x0A] line"
      unfolding sanitize_strip_csi by (rule strip_csi_unchanged)
  }
  {
    assume e: "CHR 0x1B \<notin> set line"
    have "\<forall>i. csi_rest (drop i (rstrip [CHR 0x0A] line)) = None"
    proof
      fix i
      have "set (drop i (rstrip [CHR 0x0A] line)) \<subseteq> set (rstrip [CHR 0x0A] line)"
        by (rule set_drop_subset)
      moreover have "set (rstrip [CHR 0x0A] line) \<subseteq> set line"
        using rstrip_subseq by (rule subseq_set)
      ultimately have "set (drop i (rstrip [CHR 0x0A] line)) \<subseteq> set line"
        by (rule subset_trans)
      with e have "CHR 0x1B \<notin> set (drop i (rstrip [CHR 0x0A] line))" by blast
      then show "csi_rest (drop i (rstrip [CHR 0x0A] line)) = None" by (rule csi_rest_no_esc)
    qed
    then show "sanitize line = rstrip [CHR 0x0A] line"
      unfolding sanitize_strip_csi by (rule strip_csi_unchanged)
  }
  {
    assume "CHR 0x0A \<notin> set (butlast line)"
    then have "CHR 0x0A \<notin> set (rstrip [CHR 0x0A] line)" by (rule rstrip_line_no_newline)
    moreover have "set (strip_csi (rstrip [CHR 0x0A] line)) \<subseteq> set (rstrip [CHR 0x0A] line)"
      using strip_csi_subseq by (rule subseq_set)
    ultimately show "CHR 0x0A \<notin> set (sanitize line)"
      unfolding sanitize_strip_csi by blast
  }
qed

theorem sanitize_strips_control_sequences_witness:
  "sanitize (CHR 0x1B # ''[31;1mhello'' @ CHR 0x1B # ''[0m world'' @ [CHR 0x0A]) = ''hello world''
   \<and> sanitize (''plain text'' @ [CHR 0x0A]) = ''plain text''
   \<and> CHR 0x0A \<notin> set (sanitize (''plain text'' @ [CHR 0x0A]))"
proof -
  note a = sanitize_strips_control_sequences
    [of "CHR 0x1B # ''[31;1mhello'' @ CHR 0x1B # ''[0m world'' @ [CHR 0x0A]", THEN conjunct1]
  note b = sanitize_strips_control_sequences [of "''plain text'' @ [CHR 0x0A]"]
  have r: "rstrip [CHR 0x0A] (''plain text'' @ [CHR 0x0A]) = ''plain text''"
    by (simp add: rstrip_def)
  have "CHR 0x1B \<notin> set (''plain text'' @ [CHR 0x0A])" by simp
  with b have p: "sanitize (''plain text'' @ [CHR 0x0A]) = ''plain text''"
    unfolding r by blast
  have "CHR 0x0A \<notin> set (butlast (''plain text'' @ [CHR 0x0A]))" by simp
  with b have n: "CHR 0x0A \<notin> set (sanitize (''plain text'' @ [CHR 0x0A]))" by blast
  have "sanitize (CHR 0x1B # ''[31;1mhello'' @ CHR 0x1B # ''[0m world'' @ [CHR 0x0A]) = ''hello world''"
    unfolding a by (simp add: rstrip_def csi_rest_def in_range_def)
  with p n show ?thesis by blast
qed

section \<open>The command line of a scan\<close>

lemma get_stripped_text:
  assumes "get_stripped data k = Inr x"
  shows "\<exists>v. dict_get data k = Inr v \<and> x = strip (text_of v)"
proof -
  from assms obtain v where v: "dict_get data k = Inr v" and o: "or_empty_strip v = Inr x"
    by (auto simp: get_stripped_def split: sum.splits)
  have "x = strip (text_of v)"
  proof (cases "truthy v")
    case False
    then have "text_of v = []" by (cases v) (simp_all add: truthy_def text_of_def)
    with o False show ?thesis by (simp add: or_empty_strip_def)
  next
    case True
    with o show ?thesis by (cases v) (simp_all add: or_empty_strip_def text_of_def)
  qed
  with v show ?thesis by blast
qed

lemma start_scan_argv:
  assumes "start_scan e uid body s = (Inr (ScanId r), s')"
  shows "\<exists>p tv sv. dict_get (body_data body) ''target'' = Inr tv \<and>
             dict_get (body_data body) ''skip'' = Inr sv \<and>
             metas s' = metas s @ [new_meta p] \<and>
             argv p = build_cmd (RAPIDSCAN_PATH e) (strip (text_of tv)) (strip (text_of sv))"
proof -
  from assms obtain tgt where t: "get_stripped (body_data body) ''target'' = Inr tgt"
    by (cases "get_stripped (body_data body) ''target''") (auto simp: start_scan_def Let_def)
  from assms t obtain raw where k: "get_stripped (body_data body) ''skip'' = Inr raw"
    by (cases "get_stripped (body_data body) ''skip''") (auto simp: start_scan_def Let_def)
  from assms t k have ne: "tgt \<noteq> []"
    by (auto simp: start_scan_def Let_def split: if_splits)
  from get_stripped_text [OF t] obtain tv where tv: "dict_get (body_data body) ''target'' = Inr tv"
    "tgt = strip (text_of tv)" by blast
  from get_stripped_text [OF k] obtain sv where sv: "dict_get (body_data body) ''skip'' = Inr sv"
    "raw = strip (text_of sv)" by blast
  show ?thesis
  proof (cases "Popen (can_exec e) (build_cmd (RAPIDSCAN_PATH e) tgt raw)")
    case (Inl err)
    with assms t k ne show ?thesis by (simp add: start_scan_def Let_def)
  next
    case (Inr p)
    then have "argv p = build_cmd (RAPIDSCAN_PATH e) tgt raw"
      by (auto simp: Popen_def split: if_splits)
    moreover from assms t k ne Inr have "metas s' = metas s @ [new_meta p]"
      by (auto simp: start_scan_def Let_def)
    ultimately show ?thesis using tv sv by blast
  qed
qed

lemma spec_tokens_example: "spec_tokens ''a, b  c'' = [''a'', ''b'', ''c'']"
  by (simp add: spec_tokens_def is_sep_def isspace_def in_range_def)

text \<open>
  Claim C3. For every skip-list string, a session that is created runs the argument list
  \<open>python3 -u <path of rapidscan.py> -n\<close>, then the pair \<open>--skip <token>\<close> for each token
  of the skip list in the order of the tokens, then the trimmed target, the skip list and
  the target being the texts of the fields \<open>skip\<close> and \<open>target\<close> of the request. The tokens are the
  maximal runs of characters that are neither commas nor whitespace: none is empty, none
  holds a separator, and together they are the skip list without its separators. A skip
  list of whitespace alone gives no \<open>--skip\<close>, and \<open>a, b  c\<close> gives \<open>a\<close>, \<open>b\<close>, \<open>c\<close>.
\<close>

theorem start_scan_command:
  "build_cmd path tgt (strip raw) =
     [''python3'', ''-u'', path, ''-n''] @ concat (map (\<lambda>t. [''--skip'', t]) (spec_tokens raw)) @ [tgt]
   \<and> (\<forall>r s'. start_scan e uid body s = (Inr (ScanId r), s') \<longrightarrow>
         (\<exists>p tv sv.
              dict_get (body_data body) ''target'' = Inr tv \<and>
              dict_get (body_data body) ''skip'' = Inr sv \<and>
              metas s' = metas s @ [new_meta p] \<and>
              argv p = [''python3'', ''-u'', RAPIDSCAN_PATH e, ''-n''] @
                       concat (map (\<lambda>t. [''--skip'', t]) (spec_tokens (text_of sv))) @
                       [strip (text_of tv)]))
   \<and> (\<forall>t\<in>set (spec_tokens raw). t \<noteq> [] \<and> (\<forall>c\<in>set t. \<not> is_sep c))
   \<and> concat (spec_tokens raw) = filter (\<lambda>c. \<not> is_sep c) raw
   \<and> (list_all isspace raw \<longrightarrow> spec_tokens raw = [])
   \<and> spec_tokens ''a, b  c'' = [''a'', ''b'', ''c'']"
proof (intro conjI allI impI ballI)
  show "build_cmd path tgt (strip raw) =
     [''python3'', ''-u'', path, ''-n''] @ concat (map (\<lambda>t. [''--skip'', t]) (spec_tokens raw)) @ [tgt]"
    by (rule build_cmd_tokens)
  show "concat (spec_tokens raw) = filter (\<lambda>c. \<not> is_sep c) raw"
    by (simp add: spec_tokens_def tokens_from_concat)
  show "spec_tokens ''a, b  c'' = [''a'', ''b'', ''c'']"
    by (rule spec_tokens_example)
next
  fix r s' assume "start_scan e uid body s = (Inr (ScanId r), s')"
  from start_scan_argv [OF this]
  show "\<exists>p tv sv.
              dict_get (body_data body) ''target'' = Inr tv \<and>
              dict_get (body_data body) ''skip'' = Inr sv \<and>
              metas s' = metas s @ [new_meta p] \<and>
              argv p = [''python3'', ''-u'', RAPIDSCAN_PATH e, ''-n''] @
                       concat (map (\<lambda>t. [''--skip'', t]) (spec_tokens (text_of sv))) @
                       [strip (text_of tv)]"
    unfolding build_cmd_tokens .
next
  fix t assume t: "t \<in> set (spec_tokens raw)"
  have "\<forall>c\<in>set ([]::string). \<not> is_sep c" by simp
  from tokens_from_props [OF this] t
  show "t \<noteq> []" and "\<And>c. c \<in> set t \<Longrightarrow> \<not> is_sep c"
    unfolding spec_tokens_def by blast+
next
  assume "list_all isspace raw"
  then have "\<forall>c\<in>set raw. is_sep c" by (simp add: list_all_iff is_sep_def)
  then show "spec_tokens raw = []" unfolding spec_tokens_def by (rule tokens_all_sep)
qed

lemma strip_examples:
  "strip '' a, b  c '' = ''a, b  c''" "strip ''example.com'' = ''example.com''"
  "strip ''   '' = []"
  by (simp_all add: strip_def isspace_def in_range_def)

theorem start_scan_command_witness:
  "start_scan sample_env ''5f0c'' (Some (JObj [(''target'', JStr ''example.com''), (''skip'', JStr '' a, b  c '')])) init_state =
     (Inr (ScanId ''5f0c''),
      \<lparr>scans = [''5f0c'' \<mapsto> 0],
       metas = [new_meta \<lparr>argv = [''python3'', ''-u'', ''/srv/rapidscan.py'', ''-n'',
                                  ''--skip'', ''a'', ''--skip'', ''b'', ''--skip'', ''c'',
                                  ''example.com''],
                         out_pipe = [], out_open = True, err_pipe = [], err_open = True,
                         exit_status = None, signals = []\<rparr>],
       generators = []\<rparr>)
   \<and> build_cmd ''/srv/rapidscan.py'' ''example.com'' (strip ''   '') =
       [''python3'', ''-u'', ''/srv/rapidscan.py'', ''-n'', ''example.com'']"
proof -
  have sp: "list_all isspace ''   ''" by (simp add: isspace_def in_range_def)
  note w = start_scan_command [of "''/srv/rapidscan.py''" "''example.com''" "'' a, b  c ''"
      sample_env "''5f0c''" "Some (JObj [(''target'', JStr ''example.com''), (''skip'', JStr '' a, b  c '')])" init_state]
  note v = start_scan_command [of "''/srv/rapidscan.py''" "''example.com''" "''   ''"
      sample_env "''5f0c''" "Some (JObj [(''target'', JStr ''example.com''), (''skip'', JStr '' a, b  c '')])" init_state]
  have t: "spec_tokens '' a, b  c '' = [''a'', ''b'', ''c'']"
    by (simp add: spec_tokens_def is_sep_def isspace_def in_range_def)
  have c: "build_cmd ''/srv/rapidscan.py'' ''example.com'' (strip '' a, b  c '') =
      [''python3'', ''-u'', ''/srv/rapidscan.py'', ''-n'', ''--skip'', ''a'', ''--skip'', ''b'',
       ''--skip'', ''c'', ''example.com'']"
    using w [THEN conjunct1] unfolding t by simp
  have e: "spec_tokens ''   '' = []"
    using v sp by blast
  have c2: "build_cmd ''/srv/rapidscan.py'' ''example.com'' (strip ''   '') =
       [''python3'', ''-u'', ''/srv/rapidscan.py'', ''-n'', ''example.com'']"
    using v [THEN conjunct1] unfolding e by simp
  have "start_scan sample_env ''5f0c'' (Some (JObj [(''target'', JStr ''example.com''), (''skip'', JStr '' a, b  c '')])) init_state =
     (Inr (ScanId ''5f0c''),
      \<lparr>scans = [''5f0c'' \<mapsto> 0],
       metas = [new_meta \<lparr>argv = [''python3'', ''-u'', ''/srv/rapidscan.py'', ''-n'',
                                  ''--skip'', ''a'', ''--skip'', ''b'', ''--skip'', ''c'',
                                  ''example.com''],
                         out_pipe = [], out_open = True, err_pipe = [], err_open = True,
                         exit_status = None, signals = []\<rparr>],
       generators = []\<rparr>)"
    unfolding start_scan_def Let_def sample_env_def init_state_def
    using c
    by (simp add: strip_examples Popen_def body_data_def truthy_def get_stripped_def dict_get_def
        or_empty_strip_def)
  with c2 show ?thesis by simp
qed

section \<open>Session creation\<close>



lemma meta_at_simps:
  "meta_at (s\<lparr>scans := sc, metas := metas s @ [m]\<rparr>) a =
     (if a < length (metas s) then meta_at s a else if a = length (metas s) then Some m else None)"
  by (auto simp: meta_at_def nth_append)




section \<open>Stopping a scan\<close>

lemma stop_result:
  assumes "scans s sid = Some a" and "meta_at s a = Some m"
  shows "stop sig_fails term_fails sid s =
     (Inr Stopping,
      set_meta a (m\<lparr>proc := (proc m)\<lparr>signals := signals (proc m) @
                     (if exit_status (proc m) \<noteq> None then []
                      else if \<not> sig_fails then [SIGINT]
                      else if \<not> term_fails then [SIGTERM]
                      else [])\<rparr>\<rparr>) s)"
proof -
  from assms(2) have a: "a < length (metas s)" and m: "metas s ! a = m"
    by (auto simp: meta_at_def split: if_splits)
  then have "(metas s)[a := m] = metas s" by (metis list_update_id)
  then have id: "set_meta a m s = s" by (simp add: set_meta_def)
  show ?thesis
    using assms id by (simp add: stop_def send_signal_def terminate_def)
qed

lemma meta_at_set_meta:
  "meta_at (set_meta a m s) b = (if b = a \<and> a < length (metas s) then Some m else meta_at s b)"
  by (simp add: meta_at_def set_meta_def nth_list_update)

text \<open>
  Claim C8. For a session that exists, \<open>stop\<close> always answers \<open>stopping\<close> and never
  raises. What reaches the process: the interrupt signal when its delivery does not fail;
  the terminate signal when the delivery of the interrupt fails and that of the terminate
  signal does not; nothing when both fail, and nothing when the process has already
  exited, in which case the state is left as it is. Nothing else changes: the registry,
  the generators, every other session, and in this session everything but the signals
  received by the process, so that the completion flag keeps its value. For an id that is
  not registered the answer is the error \<open>Invalid scan id\<close>.
\<close>

theorem stop_semantics:
  "(scans s sid = Some a \<and> meta_at s a = Some m \<longrightarrow>
      fst (stop sig_fails term_fails sid s) = Inr Stopping
      \<and> meta_at (snd (stop sig_fails term_fails sid s)) a =
          Some (m\<lparr>proc := (proc m)\<lparr>signals := signals (proc m) @
                     (if exit_status (proc m) \<noteq> None then []
                      else if \<not> sig_fails then [SIGINT]
                      else if \<not> term_fails then [SIGTERM]
                      else [])\<rparr>\<rparr>)
      \<and> (\<forall>b. b \<noteq> a \<longrightarrow> meta_at (snd (stop sig_fails term_fails sid s)) b = meta_at s b)
      \<and> scans (snd (stop sig_fails term_fails sid s)) = scans s
      \<and> generators (snd (stop sig_fails term_fails sid s)) = generators s
      \<and> (\<forall>m'. meta_at (snd (stop sig_fails term_fails sid s)) a = Some m' \<longrightarrow> done m' = done m)
      \<and> (exit_status (proc m) \<noteq> None \<or> (sig_fails \<and> term_fails) \<longrightarrow>
           snd (stop sig_fails term_fails sid s) = s))
   \<and> (scans s sid = None \<longrightarrow>
        stop sig_fails term_fails sid s = (Inr (Error ''Invalid scan id'' 404), s))"
proof (intro conjI impI)
  assume "scans s sid = None"
  then show "stop sig_fails term_fails sid s = (Inr (Error ''Invalid scan id'' 404), s)"
    by (simp add: stop_def)
next
  assume h: "scans s sid = Some a \<and> meta_at s a = Some m"
  then have a: "a < length (metas s)" and m: "metas s ! a = m"
    by (auto simp: meta_at_def split: if_splits)
  note r = stop_result [of s sid a m sig_fails term_fails]
  from h r show "fst (stop sig_fails term_fails sid s) = Inr Stopping" by simp
  from h r a show "meta_at (snd (stop sig_fails term_fails sid s)) a =
          Some (m\<lparr>proc := (proc m)\<lparr>signals := signals (proc m) @
                     (if exit_status (proc m) \<noteq> None then []
                      else if \<not> sig_fails then [SIGINT]
                      else if \<not> term_fails then [SIGTERM]
                      else [])\<rparr>\<rparr>)"
    by (simp add: meta_at_set_meta)
  then show "\<forall>m'. meta_at (snd (stop sig_fails term_fails sid s)) a = Some m' \<longrightarrow> done m' = done m"
    by simp
  from h r show "\<forall>b. b \<noteq> a \<longrightarrow> meta_at (snd (stop sig_fails term_fails sid s)) b = meta_at s b"
    by (simp add: meta_at_set_meta)
  from h r show "scans (snd (stop sig_fails term_fails sid s)) = scans s"
    by (simp add: set_meta_def)
  from h r show "generators (snd (stop sig_fails term_fails sid s)) = generators s"
    by (simp add: set_meta_def)
  assume "exit_status (proc m) \<noteq> None \<or> (sig_fails \<and> term_fails)"
  then have "signals (proc m) @
                     (if exit_status (proc m) \<noteq> None then []
                      else if \<not> sig_fails then [SIGINT]
                      else if \<not> term_fails then [SIGTERM]
                      else []) = signals (proc m)" by auto
  with h r have "snd (stop sig_fails term_fails sid s) = set_meta a m s" by simp
  moreover from m have "(metas s)[a := m] = metas s" by (metis list_update_id)
  ultimately show "snd (stop sig_fails term_fails sid s) = s" by (simp add: set_meta_def)
qed

theorem stop_semantics_witness:
  "fst (stop False False ''5f0c'' sample_state) = Inr Stopping
   \<and> meta_at (snd (stop False False ''5f0c'' sample_state)) 0 =
       Some (sample_meta\<lparr>proc := sample_proc\<lparr>signals := [SIGINT]\<rparr>\<rparr>)
   \<and> meta_at (snd (stop True False ''5f0c'' sample_state)) 0 =
       Some (sample_meta\<lparr>proc := sample_proc\<lparr>signals := [SIGTERM]\<rparr>\<rparr>)
   \<and> snd (stop True True ''5f0c'' sample_state) = sample_state
   \<and> stop False False ''beef'' sample_state = (Inr (Error ''Invalid scan id'' 404), sample_state)"
proof -
  have h: "scans sample_state ''5f0c'' = Some 0 \<and> meta_at sample_state 0 = Some sample_meta"
    by (simp add: sample_state_def meta_at_def)
  have n: "scans sample_state ''beef'' = None" by (simp add: sample_state_def)
  have p: "proc sample_meta = sample_proc" "exit_status sample_proc = None"
    "signals sample_proc = []"
    by (simp_all add: sample_meta_def new_meta_def sample_proc_def)
  note a = stop_semantics [of sample_state "''5f0c''" 0 sample_meta False False, THEN conjunct1]
  note b = stop_semantics [of sample_state "''5f0c''" 0 sample_meta True False, THEN conjunct1]
  note c = stop_semantics [of sample_state "''5f0c''" 0 sample_meta True True, THEN conjunct1]
  note d = stop_semantics [of sample_state "''beef''" 0 sample_meta False False, THEN conjunct2]
  from a h have 1: "fst (stop False False ''5f0c'' sample_state) = Inr Stopping
    \<and> meta_at (snd (stop False False ''5f0c'' sample_state)) 0 =
       Some (sample_meta\<lparr>proc := sample_proc\<lparr>signals := [SIGINT]\<rparr>\<rparr>)"
    by (simp add: p)
  from b h have 2: "meta_at (snd (stop True False ''5f0c'' sample_state)) 0 =
       Some (sample_meta\<lparr>proc := sample_proc\<lparr>signals := [SIGTERM]\<rparr>\<rparr>)"
    by (simp add: p)
  from c h have 3: "snd (stop True True ''5f0c'' sample_state) = sample_state" by simp
  from d n have 4: "stop False False ''beef'' sample_state =
      (Inr (Error ''Invalid scan id'' 404), sample_state)" by simp
  from 1 2 3 4 show ?thesis by blast
qed

section \<open>Steps and runs\<close>

lemma run_append:
  "run e (as @ bs) s = (case run e as s of None \<Rightarrow> None | Some s' \<Rightarrow> run e bs s')"
  by (induction as arbitrary: s) (auto split: option.splits)

lemma run_snoc:
  "run e (as @ [a]) s = (case run e as s of None \<Rightarrow> None | Some s' \<Rightarrow> step e a s')"
  by (simp add: run_append split: option.splits)

lemma run_induct:
  assumes "run e as s0 = Some s"
    and "P [] s0"
    and "\<And>as s a s'. run e as s0 = Some s \<Longrightarrow> P as s \<Longrightarrow> step e a s = Some s' \<Longrightarrow> P (as @ [a]) s'"
  shows "P as s"
  using assms(1)
proof (induction as arbitrary: s rule: rev_induct)
  case Nil
  with assms(2) show ?case by simp
next
  case (snoc a as)
  from snoc.prems obtain s1 where r: "run e as s0 = Some s1" and st: "step e a s1 = Some s"
    by (auto simp: run_snoc split: option.splits)
  from snoc.IH [OF r] have p: "P as s1" .
  from r p st show ?case by (rule assms(3))
qed

lemma on_meta_Some:
  "on_meta b f s = Some s' \<Longrightarrow> \<exists>m m'. meta_at s b = Some m \<and> f m = Some m' \<and> s' = set_meta b m' s"
  by (auto simp: on_meta_def split: option.splits)

lemma on_proc_Some:
  "on_proc f m = Some m' \<Longrightarrow> \<exists>p. f (proc m) = Some p \<and> m' = m\<lparr>proc := p\<rparr>"
  by (auto simp: on_proc_def split: option.splits)

lemma on_gen_Some:
  "on_gen i f s = Some s' \<Longrightarrow>
     \<exists>g m g' m'. gen_at s i = Some g \<and> meta_at s (gref g) = Some m \<and> f m g = Some (g', m') \<and>
                 s' = set_gen i g' (set_meta (gref g) m' s)"
  by (auto simp: on_gen_def split: option.splits)

lemma meta_at_set_gen: "meta_at (set_gen i g s) a = meta_at s a"
  by (simp add: meta_at_def set_gen_def)

lemma gen_at_set_meta: "gen_at (set_meta a m s) i = gen_at s i"
  by (simp add: gen_at_def set_meta_def)

lemma gen_at_set_gen:
  "gen_at (set_gen i g s) j = (if j = i \<and> i < length (generators s) then Some g else gen_at s j)"
  by (simp add: gen_at_def set_gen_def nth_list_update)

lemma meta_at_Some_iff: "meta_at s a = Some m \<longleftrightarrow> a < length (metas s) \<and> metas s ! a = m"
  by (auto simp: meta_at_def)

lemma start_scan_state:
  "snd (start_scan e uid body s) = s \<or>
   (\<exists>p. snd (start_scan e uid body s) =
           s\<lparr>scans := (scans s)(uid \<mapsto> length (metas s)), metas := metas s @ [new_meta p]\<rparr>)"
  by (auto simp: start_scan_def Let_def split: sum.splits)

lemma stream_state:
  "snd (stream sid s) = s \<or>
   (\<exists>a. scans s sid = Some a \<and>
        snd (stream sid s) = s\<lparr>generators := generators s @ [\<lparr>gref = a, gpc = AtGet, emitted = []\<rparr>]\<rparr>)"
  by (auto simp: stream_def split: option.splits)

lemma stop_state:
  "snd (stop sf tf sid s) = s \<or>
   (\<exists>a m sg. meta_at s a = Some m \<and>
        snd (stop sf tf sid s) = set_meta a (m\<lparr>proc := (proc m)\<lparr>signals := sg\<rparr>\<rparr>) s)"
proof (cases "scans s sid")
  case None
  then show ?thesis by (simp add: stop_def)
next
  case (Some a)
  show ?thesis
  proof (cases "meta_at s a")
    case None
    with Some show ?thesis by (simp add: stop_def)
  next
    case m: (Some m)
    have "snd (stop sf tf sid s) =
        set_meta a (m\<lparr>proc := (proc m)\<lparr>signals := signals (proc m) @
                     (if exit_status (proc m) \<noteq> None then []
                      else if \<not> sf then [SIGINT]
                      else if \<not> tf then [SIGTERM]
                      else [])\<rparr>\<rparr>) s"
      unfolding stop_result [OF Some m] by (rule snd_conv)
    with m show ?thesis by blast
  qed
qed

lemma update_progress_shape:
  "update_progress lim c m = Inr m' \<Longrightarrow> m' = m \<or> (\<exists>p t. m' = m\<lparr>progress := p, total := t\<rparr>)"
  by (auto simp: update_progress_def split: option.splits sum.splits)

lemma update_progress_Inr: "\<exists>m'. update_progress lim c m = Inr m'"
  by (auto simp: update_progress_def split: option.splits sum.splits)


lemma gen_steps_meta:
  "gen_data m g = Some (g', m') \<Longrightarrow> m' = m"
  "gen_snapshot m g = Some (g', m') \<Longrightarrow> m' = m"
  "gen_progress m g = Some (g', m') \<Longrightarrow> m' = m"
  "gen_check m g = Some (g', m') \<Longrightarrow> m' = m"
  "gen_complete m g = Some (g', m') \<Longrightarrow> m' = m"
  by (auto simp: gen_data_def gen_snapshot_def gen_progress_def gen_check_def gen_complete_def
      split: gen_pc.splits if_splits)

lemma gen_get_meta:
  "gen_get m g = Some (g', m') \<Longrightarrow> m' = m \<or> (\<exists>l q. queue m = l # q \<and> m' = m\<lparr>queue := q\<rparr>)"
  by (auto simp: gen_get_def split: list.splits if_splits)

lemma on_meta_at:
  assumes "on_meta b f s = Some s'" and "meta_at s a = Some m"
  shows "(a \<noteq> b \<and> meta_at s' a = Some m) \<or> (a = b \<and> (\<exists>m'. f m = Some m' \<and> meta_at s' a = Some m'))"
proof -
  from assms(2) have a: "a < length (metas s)" by (simp add: meta_at_Some_iff)
  from on_meta_Some [OF assms(1)] obtain m0 m1 where
    "meta_at s b = Some m0" "f m0 = Some m1" "s' = set_meta b m1 s" by blast
  with assms(2) a show ?thesis by (cases "a = b") (simp_all add: meta_at_set_meta)
qed

lemma on_gen_at:
  assumes "on_gen i f s = Some s'" and "meta_at s a = Some m"
  shows "\<exists>g. gen_at s i = Some g \<and>
     ((gref g \<noteq> a \<and> meta_at s' a = Some m) \<or>
      (gref g = a \<and> (\<exists>g' m'. f m g = Some (g', m') \<and> meta_at s' a = Some m')))"
proof -
  from assms(2) have a: "a < length (metas s)" by (simp add: meta_at_Some_iff)
  from on_gen_Some [OF assms(1)] obtain g m0 g' m1 where
    "gen_at s i = Some g" "meta_at s (gref g) = Some m0" "f m0 g = Some (g', m1)"
    "s' = set_gen i g' (set_meta (gref g) m1 s)" by blast
  with assms(2) a show ?thesis
    by (cases "gref g = a") (simp_all add: meta_at_set_meta meta_at_set_gen)
qed

lemma step_meta:
  assumes "step e act s = Some s'" and "meta_at s a = Some m"
  shows "\<exists>m'. meta_at s' a = Some m' \<and>
     (m' = m
      \<or> act = OutRead a \<and> out_read m = Some m'
      \<or> act = OutCrash a \<and> out_crash m = Some m'
      \<or> act = OutUpdate a \<and> out_update (int_max_str_digits e) m = Some m'
      \<or> act = OutPut a \<and> out_put m = Some m'
      \<or> act = OutWait a \<and> out_wait m = Some m'
      \<or> act = OutDone a \<and> out_done m = Some m'
      \<or> act = ErrRead a \<and> err_read m = Some m'
      \<or> act = ErrCrash a \<and> err_crash m = Some m'
      \<or> act = ErrPut a \<and> err_put m = Some m'
      \<or> (\<exists>txt p. act = ProcWriteOut a txt \<and> proc_write_out txt (proc m) = Some p \<and> m' = m\<lparr>proc := p\<rparr>)
      \<or> (\<exists>txt p. act = ProcWriteErr a txt \<and> proc_write_err txt (proc m) = Some p \<and> m' = m\<lparr>proc := p\<rparr>)
      \<or> (\<exists>p. act = ProcCloseOut a \<and> proc_close_out (proc m) = Some p \<and> m' = m\<lparr>proc := p\<rparr>)
      \<or> (\<exists>p. act = ProcCloseErr a \<and> proc_close_err (proc m) = Some p \<and> m' = m\<lparr>proc := p\<rparr>)
      \<or> (\<exists>code p. act = ProcExit a code \<and> proc_exit code (proc m) = Some p \<and> m' = m\<lparr>proc := p\<rparr>)
      \<or> (\<exists>i g g'. act = GenGet i \<and> gen_at s i = Some g \<and> gref g = a \<and> gen_get m g = Some (g', m'))
      \<or> (\<exists>sid sf tf sg. act = Stop sid sf tf \<and> m' = m\<lparr>proc := (proc m)\<lparr>signals := sg\<rparr>\<rparr>))"
proof -
  from assms(2) have a: "a < length (metas s)" by (simp add: meta_at_Some_iff)
  show ?thesis
  proof (cases act)
    case (StartScan uid body)
    with assms(1) have "s' = snd (start_scan e uid body s)" by simp
    with start_scan_state [of e uid body s] assms(2) a have "meta_at s' a = Some m"
      by (auto simp: meta_at_simps)
    then show ?thesis by simp
  next
    case (Stream sid)
    with assms(1) have "s' = snd (stream sid s)" by simp
    with stream_state [of sid s] have "metas s' = metas s" by auto
    with assms(2) have "meta_at s' a = Some m" by (simp add: meta_at_Some_iff)
    then show ?thesis by simp
  next
    case (Stop sid sf tf)
    with assms(1) have "s' = snd (stop sf tf sid s)" by simp
    with stop_state [of sf tf sid s] consider "s' = s"
      | a0 m0 sg where "meta_at s a0 = Some m0"
          "s' = set_meta a0 (m0\<lparr>proc := (proc m0)\<lparr>signals := sg\<rparr>\<rparr>) s"
      by auto
    then have "meta_at s' a = Some m \<or> (\<exists>sg. meta_at s' a = Some (m\<lparr>proc := (proc m)\<lparr>signals := sg\<rparr>\<rparr>))"
    proof cases
      case 1
      with assms(2) show ?thesis by simp
    next
      case 2
      show ?thesis
      proof (cases "a0 = a")
        case True
        with 2 assms(2) a have "meta_at s' a = Some (m\<lparr>proc := (proc m)\<lparr>signals := sg\<rparr>\<rparr>)"
          by (simp add: meta_at_set_meta)
        then show ?thesis by (intro disjI2 exI)
      next
        case False
        with 2 assms(2) have "meta_at s' a = Some m" by (simp add: meta_at_set_meta)
        then show ?thesis by (rule disjI1)
      qed
    qed
    then show ?thesis
    proof
      assume "meta_at s' a = Some m"
      then show ?thesis by simp
    next
      assume "\<exists>sg. meta_at s' a = Some (m\<lparr>proc := (proc m)\<lparr>signals := sg\<rparr>\<rparr>)"
      then obtain sg where "meta_at s' a = Some (m\<lparr>proc := (proc m)\<lparr>signals := sg\<rparr>\<rparr>)" ..
      with Stop show ?thesis by blast
    qed
  next
    case (Status sid)
    with assms have "meta_at s' a = Some m" by simp
    then show ?thesis by simp
  next
    case (GenGet i)
    with assms(1) have "on_gen i gen_get s = Some s'" by simp
    from on_gen_at [OF this assms(2)] GenGet show ?thesis by auto
  next
    case (GenData i)
    with assms(1) have "on_gen i gen_data s = Some s'" by simp
    from on_gen_at [OF this assms(2)] have "meta_at s' a = Some m"
      by (auto dest: gen_steps_meta)
    then show ?thesis by simp
  next
    case (GenSnapshot i)
    with assms(1) have "on_gen i gen_snapshot s = Some s'" by simp
    from on_gen_at [OF this assms(2)] have "meta_at s' a = Some m"
      by (auto dest: gen_steps_meta)
    then show ?thesis by simp
  next
    case (GenProgress i)
    with assms(1) have "on_gen i gen_progress s = Some s'" by simp
    from on_gen_at [OF this assms(2)] have "meta_at s' a = Some m"
      by (auto dest: gen_steps_meta)
    then show ?thesis by simp
  next
    case (GenCheck i)
    with assms(1) have "on_gen i gen_check s = Some s'" by simp
    from on_gen_at [OF this assms(2)] have "meta_at s' a = Some m"
      by (auto dest: gen_steps_meta)
    then show ?thesis by simp
  next
    case (GenComplete i)
    with assms(1) have "on_gen i gen_complete s = Some s'" by simp
    from on_gen_at [OF this assms(2)] have "meta_at s' a = Some m"
      by (auto dest: gen_steps_meta)
    then show ?thesis by simp
  next
    case (OutRead b)
    with assms(1) have "on_meta b out_read s = Some s'" by simp
    from on_meta_at [OF this assms(2)] OutRead show ?thesis by auto
  next
    case (OutCrash b)
    with assms(1) have "on_meta b out_crash s = Some s'" by simp
    from on_meta_at [OF this assms(2)] OutCrash show ?thesis by auto
  next
    case (OutUpdate b)
    with assms(1) have "on_meta b (out_update (int_max_str_digits e)) s = Some s'" by simp
    from on_meta_at [OF this assms(2)] OutUpdate show ?thesis by auto
  next
    case (OutPut b)
    with assms(1) have "on_meta b out_put s = Some s'" by simp
    from on_meta_at [OF this assms(2)] OutPut show ?thesis by auto
  next
    case (OutWait b)
    with assms(1) have "on_meta b out_wait s = Some s'" by simp
    from on_meta_at [OF this assms(2)] OutWait show ?thesis by auto
  next
    case (OutDone b)
    with assms(1) have "on_meta b out_done s = Some s'" by simp
    from on_meta_at [OF this assms(2)] OutDone show ?thesis by auto
  next
    case (ErrRead b)
    with assms(1) have "on_meta b err_read s = Some s'" by simp
    from on_meta_at [OF this assms(2)] ErrRead show ?thesis by auto
  next
    case (ErrCrash b)
    with assms(1) have "on_meta b err_crash s = Some s'" by simp
    from on_meta_at [OF this assms(2)] ErrCrash show ?thesis by auto
  next
    case (ErrPut b)
    with assms(1) have "on_meta b err_put s = Some s'" by simp
    from on_meta_at [OF this assms(2)] ErrPut show ?thesis by auto
  next
    case (ProcWriteOut b tx)
    with assms(1) have "on_meta b (on_proc (proc_write_out tx)) s = Some s'" by simp
    from on_meta_at [OF this assms(2)] ProcWriteOut show ?thesis
      by (auto dest!: on_proc_Some)
  next
    case (ProcWriteErr b tx)
    with assms(1) have "on_meta b (on_proc (proc_write_err tx)) s = Some s'" by simp
    from on_meta_at [OF this assms(2)] ProcWriteErr show ?thesis
      by (auto dest!: on_proc_Some)
  next
    case (ProcCloseOut b)
    with assms(1) have "on_meta b (on_proc proc_close_out) s = Some s'" by simp
    from on_meta_at [OF this assms(2)] ProcCloseOut show ?thesis
      by (auto dest!: on_proc_Some)
  next
    case (ProcCloseErr b)
    with assms(1) have "on_meta b (on_proc proc_close_err) s = Some s'" by simp
    from on_meta_at [OF this assms(2)] ProcCloseErr show ?thesis
      by (auto dest!: on_proc_Some)
  next
    case (ProcExit b code)
    with assms(1) have "on_meta b (on_proc (proc_exit code)) s = Some s'" by simp
    from on_meta_at [OF this assms(2)] ProcExit show ?thesis
      by (auto dest!: on_proc_Some)
  qed
qed

end
